theory Spec2Isabelle
  imports Main "HOL-Library.AList"
begin

section \<open>Kung-fu chess: events, trackers and the event bus\<close>

text \<open>
  The development follows \<^verbatim>\<open>CTD25/KFC_Py\<close>: \<^verbatim>\<open>events/event_manager.py\<close>,
  \<^verbatim>\<open>events/score_tracker.py\<close> and \<^verbatim>\<open>Game.py\<close>.  Python exceptions are values of
  \<open>error\<close>; a function that may raise returns \<open>error + 'a\<close>.
\<close>

datatype error = IndexError | KeyError | ValueError | TypeError | InvalidBoard

type_synonym cell = "int \<times> int"

subsection \<open>Events (events/event\_manager.py)\<close>

datatype EventType = PIECE_MOVED | PIECE_CAPTURED | GAME_STARTED | GAME_ENDED | TURN_CHANGED

text \<open>
  The payload of an event is a Python dict from string keys to values.  The values that
  occur are strings, pairs of integers (cells and score pairs) and booleans.  The key
  \<^verbatim>\<open>game_time_ms\<close> holds a reading of the monotonic clock and is left out of the payloads.
\<close>

datatype pyval = PStr string | PPair "int \<times> int" | PInt int | PBool bool

record event =
  etype :: EventType
  data :: "(string \<times> pyval) list"

definition Event :: "EventType \<Rightarrow> (string \<times> pyval) list \<Rightarrow> event" where
  "Event t d = \<lparr>etype = t, data = d\<rparr>"

subsection \<open>ScoreTracker (events/score\_tracker.py)\<close>

record score_tracker =
  white_score :: int
  black_score :: int
  captured_W :: "string list"
  captured_B :: "string list"

definition PIECE_VALUES :: "(char \<times> int) list" where
  "PIECE_VALUES =
     [(CHR ''P'', 1), (CHR ''N'', 3), (CHR ''B'', 3), (CHR ''R'', 5), (CHR ''Q'', 9), (CHR ''K'', 0)]"

definition new_score_tracker :: score_tracker where
  "new_score_tracker = \<lparr>white_score = 0, black_score = 0, captured_W = [], captured_B = []\<rparr>"

text \<open>
  \<^verbatim>\<open>on_piece_captured\<close>: \<^verbatim>\<open>data.get('piece_type', '')\<close>, the length test, then the
  \<^verbatim>\<open>if\<close>/\<^verbatim>\<open>elif\<close> on the colour character.  A pair has length two and its components are
  integers, which are no key of \<^verbatim>\<open>PIECE_VALUES\<close> and equal neither \<^verbatim>\<open>'W'\<close> nor \<^verbatim>\<open>'B'\<close>; \<^verbatim>\<open>len\<close> of
  an integer or a boolean raises \<^verbatim>\<open>TypeError\<close>.
\<close>

definition score_captured_id :: "string \<Rightarrow> score_tracker \<Rightarrow> score_tracker" where
  "score_captured_id captured_piece_id st =
     (if length captured_piece_id < 2 then st
      else
        let piece_type = captured_piece_id ! 0;
            piece_color = captured_piece_id ! 1;
            piece_value = (case map_of PIECE_VALUES piece_type of Some v \<Rightarrow> v | None \<Rightarrow> 0)
        in if piece_color = CHR ''W'' then
             st\<lparr>black_score := black_score st + piece_value,
                captured_B := captured_B st @ [captured_piece_id]\<rparr>
           else if piece_color = CHR ''B'' then
             st\<lparr>white_score := white_score st + piece_value,
                captured_W := captured_W st @ [captured_piece_id]\<rparr>
           else st)"

definition on_piece_captured :: "event \<Rightarrow> score_tracker \<Rightarrow> error + score_tracker" where
  "on_piece_captured ev st =
     (case map_of (data ev) ''piece_type'' of
        None \<Rightarrow> Inr (score_captured_id [] st)
      | Some (PStr s) \<Rightarrow> Inr (score_captured_id s st)
      | Some (PPair _) \<Rightarrow> Inr st
      | Some (PInt _) \<Rightarrow> Inl TypeError
      | Some (PBool _) \<Rightarrow> Inl TypeError)"

definition on_game_started :: "event \<Rightarrow> score_tracker \<Rightarrow> score_tracker" where
  "on_game_started ev st = new_score_tracker"

definition get_scores :: "score_tracker \<Rightarrow> int \<times> int" where
  "get_scores st = (white_score st, black_score st)"

definition get_leading_player :: "score_tracker \<Rightarrow> string" where
  "get_leading_player st =
     (let diff = white_score st - black_score st
      in if diff > 0 then ''White'' else if diff < 0 then ''Black'' else ''Tied'')"

subsection \<open>EventManager (events/event\_manager.py)\<close>

text \<open>
  A callback is a Python callable; the bus compares callbacks with \<^verbatim>\<open>in\<close> and calls them.
  Here a callback is named by a number and its behaviour is looked up in a table.  Called with
  an event, a callback reads and changes the state of the observers (\<open>'s\<close>), may call the
  methods of the bus that change it (\<^verbatim>\<open>subscribe\<close>, \<^verbatim>\<open>unsubscribe\<close>, \<^verbatim>\<open>clear_all_subscribers\<close>),
  and either returns, raises an \<^verbatim>\<open>Exception\<close>, or raises something outside \<^verbatim>\<open>Exception\<close>
  (\<^verbatim>\<open>SystemExit\<close>, \<^verbatim>\<open>KeyboardInterrupt\<close>), which \<^verbatim>\<open>except Exception\<close> does not catch.  The calls
  that a callback made to the bus take effect whether it returns or raises.
\<close>

datatype outcome = Returned | RaisedException | RaisedBaseException

type_synonym callback = nat

record EventManager =
  subscribers :: "(EventType \<times> callback list) list"

definition subscribers_of :: "EventManager \<Rightarrow> EventType \<Rightarrow> callback list" where
  "subscribers_of em t = (case map_of (subscribers em) t of None \<Rightarrow> [] | Some cs \<Rightarrow> cs)"

definition new_EventManager :: EventManager where
  "new_EventManager = \<lparr>subscribers = []\<rparr>"

definition subscribe :: "EventType \<Rightarrow> callback \<Rightarrow> EventManager \<Rightarrow> EventManager" where
  "subscribe t cb em =
     (if cb \<notin> set (subscribers_of em t)
      then em\<lparr>subscribers := AList.update t (subscribers_of em t @ [cb]) (subscribers em)\<rparr>
      else em\<lparr>subscribers := AList.update t (subscribers_of em t) (subscribers em)\<rparr>)"

definition unsubscribe :: "EventType \<Rightarrow> callback \<Rightarrow> EventManager \<Rightarrow> EventManager" where
  "unsubscribe t cb em =
     (if cb \<in> set (subscribers_of em t)
      then em\<lparr>subscribers := AList.update t (remove1 cb (subscribers_of em t)) (subscribers em)\<rparr>
      else em\<lparr>subscribers := AList.update t (subscribers_of em t) (subscribers em)\<rparr>)"

definition clear_all_subscribers :: "EventManager \<Rightarrow> EventManager" where
  "clear_all_subscribers em = em\<lparr>subscribers := []\<rparr>"

text \<open>\<^verbatim>\<open>self._subscribers[event_type]\<close> on a \<^verbatim>\<open>defaultdict(list)\<close>: a missing key is created.\<close>

definition getitem :: "EventType \<Rightarrow> EventManager \<Rightarrow> EventManager" where
  "getitem t em = em\<lparr>subscribers := AList.update t (subscribers_of em t) (subscribers em)\<rparr>"

datatype bus_call = Subscribe EventType callback | Unsubscribe EventType callback | ClearAll

type_synonym 's behaviour =
  "callback \<Rightarrow> event \<Rightarrow> 's \<Rightarrow> EventManager \<Rightarrow> outcome \<times> 's \<times> bus_call list"

text \<open>
  The state threaded through \<^verbatim>\<open>publish\<close>: the observers' state, the bus, the calls made so
  far (which callback was called with which event, in order) and the number of error lines
  printed.
\<close>

record 's bus_run =
  world :: 's
  manager :: EventManager
  calls :: "(callback \<times> event) list"
  printed :: nat

text \<open>
  The effect of a call that a callback makes to the bus while \<^verbatim>\<open>publish\<close> walks the list of
  the type \<open>t\<close>.  \<^verbatim>\<open>subscribe\<close> and \<^verbatim>\<open>unsubscribe\<close> change the list object of their type in place.
  \<^verbatim>\<open>clear_all_subscribers\<close> empties the dictionary; the loop keeps the list object it walks,
  which from then on is no list of the dictionary: the second component holds its contents,
  and is \<open>None\<close> as long as the loop walks the list of the dictionary.
\<close>

definition apply_call ::
  "EventType \<Rightarrow> EventManager \<times> callback list option \<Rightarrow> bus_call \<Rightarrow>
   EventManager \<times> callback list option" where
  "apply_call t mf c =
     (case c of
        Subscribe t' cb \<Rightarrow> (subscribe t' cb (fst mf), snd mf)
      | Unsubscribe t' cb \<Rightarrow> (unsubscribe t' cb (fst mf), snd mf)
      | ClearAll \<Rightarrow>
          (clear_all_subscribers (fst mf),
           (case snd mf of None \<Rightarrow> Some (subscribers_of (fst mf) t) | Some l \<Rightarrow> Some l)))"

definition iterated :: "EventType \<Rightarrow> EventManager \<times> callback list option \<Rightarrow> callback list" where
  "iterated t mf = (case snd mf of None \<Rightarrow> subscribers_of (fst mf) t | Some l \<Rightarrow> l)"

text \<open>
  The loop of \<^verbatim>\<open>publish\<close>.  A \<^verbatim>\<open>for\<close> loop over a list walks it by index and compares the index
  with the length of the list at every step, so a callback that subscribes or unsubscribes a
  callback of the type being published changes what the loop visits next.  The loop need not
  end (a callback can subscribe a new callback at every call): the result \<open>None\<close> stands for a
  loop that runs forever.  The result is \<open>Inl\<close> when an exception leaves \<^verbatim>\<open>publish\<close> and reaches
  the publisher, with the state at that moment.
\<close>

partial_function (option) notify ::
  "'s behaviour \<Rightarrow> event \<Rightarrow> nat \<Rightarrow> callback list option \<Rightarrow> 's bus_run \<Rightarrow>
   ('s bus_run + 's bus_run) option" where
  "notify beh ev i detached r =
     (if i < length (iterated (etype ev) (manager r, detached)) then
        (let callback = iterated (etype ev) (manager r, detached) ! i;
             res = beh callback ev (world r) (manager r);
             mf = foldl (apply_call (etype ev)) (manager r, detached) (snd (snd res));
             r' = r\<lparr>world := fst (snd res), manager := fst mf, calls := calls r @ [(callback, ev)]\<rparr>
         in if fst res = Returned then notify beh ev (Suc i) (snd mf) r'
            else if fst res = RaisedException
              then notify beh ev (Suc i) (snd mf) (r'\<lparr>printed := printed r' + 1\<rparr>)
            else Some (Inl r'))
      else Some (Inr r))"

definition publish :: "'s behaviour \<Rightarrow> event \<Rightarrow> 's bus_run \<Rightarrow> ('s bus_run + 's bus_run) option" where
  "publish beh ev r = notify beh ev 0 None (r\<lparr>manager := getitem (etype ev) (manager r)\<rparr>)"



section \<open>The game (Game.py)\<close>

subsection \<open>Pieces, commands and the collaborators that are not in the sources\<close>

text \<open>
  \<^verbatim>\<open>Piece\<close>, \<^verbatim>\<open>State\<close>, \<^verbatim>\<open>Physics\<close> and \<^verbatim>\<open>Command\<close> are imported by \<^verbatim>\<open>Game.py\<close> but are not
  among the sources.  A piece is an object: it is named by a reference, and the heap gives
  its current fields, so that the list of live pieces, the occupancy index and the lookup by
  id share the same objects, as they do in Python.  \<open>pstate\<close> holds what \<^verbatim>\<open>Game.py\<close> reads from
  \<^verbatim>\<open>piece.state\<close> and \<^verbatim>\<open>piece.state.physics\<close>; \<open>hidden\<close> stands for the rest of the state machine
  (targets, timers, configuration), which \<^verbatim>\<open>Game.py\<close> never reads.
\<close>

type_synonym ref = nat

record pstate =
  state_obj :: nat \<comment> \<open>identity of the \<^verbatim>\<open>State\<close> object bound to the piece\<close>
  state_str_lower :: string \<comment> \<open>\<^verbatim>\<open>str(state).lower()\<close>\<close>
  moves_tags :: "((int \<times> int) \<times> string) list option"
    \<comment> \<open>\<^verbatim>\<open>state.moves.moves\<close>, when the state has a truthy attribute \<^verbatim>\<open>moves\<close>\<close>
  current_cell :: cell \<comment> \<open>\<^verbatim>\<open>piece.current_cell()\<close>\<close>
  can_capture :: bool \<comment> \<open>\<^verbatim>\<open>state.can_capture()\<close>\<close>
  can_be_captured :: bool \<comment> \<open>\<^verbatim>\<open>state.can_be_captured()\<close>\<close>
  is_KnightJumpPhysics :: bool \<comment> \<open>\<^verbatim>\<open>isinstance(state.physics, KnightJumpPhysics)\<close>\<close>
  has_landing_test :: bool \<comment> \<open>\<^verbatim>\<open>hasattr(state.physics, 'can_capture_at_current_position')\<close>\<close>
  can_capture_at_current_position :: bool
  get_start_ms :: int \<comment> \<open>\<^verbatim>\<open>state.physics.get_start_ms()\<close>\<close>
  hidden :: "int list"

record piece =
  pid :: string \<comment> \<open>the field \<^verbatim>\<open>id\<close>\<close>
  state :: pstate

record command =
  timestamp :: int
  piece_id :: string
  ctype :: string \<comment> \<open>the field \<^verbatim>\<open>type\<close>\<close>
  params :: "cell list"

text \<open>
  The methods of the absent classes that \<^verbatim>\<open>Game.py\<close> calls are parameters of the model:
  \<^verbatim>\<open>Piece.update(now)\<close>, \<^verbatim>\<open>Piece.reset(start_ms)\<close>, \<^verbatim>\<open>Piece.on_command(cmd, pos)\<close> (which
  receives the occupancy index), and the \<^verbatim>\<open>try\<close> block of the promotion, which builds a queen
  state machine with \<^verbatim>\<open>PieceFactory\<close> and \<^verbatim>\<open>GraphicsFactory\<close> and resets it: \<open>queen_swap\<close> gives
  the state it leaves bound to the piece, \<open>None\<close> when it leaves the state as it was (no image
  factory, no state machine built, or an exception before the assignment).
\<close>

record env =
  piece_update :: "int \<Rightarrow> pstate \<Rightarrow> pstate"
  piece_reset :: "int \<Rightarrow> pstate \<Rightarrow> pstate"
  piece_on_command :: "command \<Rightarrow> (cell \<times> piece list) list \<Rightarrow> pstate \<Rightarrow> pstate"
  queen_swap :: "string \<Rightarrow> pstate \<Rightarrow> pstate option"

subsection \<open>Strings\<close>

definition startswith :: "string \<Rightarrow> string \<Rightarrow> bool" where
  "startswith s p = (take (length p) s = p)"

text \<open>\<^verbatim>\<open>sub in s\<close> for strings.\<close>

fun contains :: "string \<Rightarrow> string \<Rightarrow> bool" where
  "contains sub [] = (sub = [])"
| "contains sub (c # cs) = (take (length sub) (c # cs) = sub \<or> contains sub cs)"

text \<open>\<^verbatim>\<open>_side_of\<close>: \<^verbatim>\<open>piece_id[1]\<close>, which raises \<^verbatim>\<open>IndexError\<close> on an id of fewer than two characters.\<close>

definition side_of :: "string \<Rightarrow> error + char" where
  "side_of i = (if length i < 2 then Inl IndexError else Inr (i ! 1))"

text \<open>\<^verbatim>\<open>str(n)\<close> for a non-negative integer.\<close>

definition digit_char :: "nat \<Rightarrow> char" where
  "digit_char d = ''0123456789'' ! d"

fun str_nat :: "nat \<Rightarrow> string" where
  "str_nat n = (if n < 10 then [digit_char n] else str_nat (n div 10) @ [digit_char (n mod 10)])"

declare str_nat.simps [simp del]

text \<open>\<^verbatim>\<open>f'{queen_base}_{queen_number}'\<close> with \<^verbatim>\<open>queen_base = f'Q{piece_color}'\<close>.\<close>

definition queen_id :: "char \<Rightarrow> nat \<Rightarrow> string" where
  "queen_id piece_color queen_number = [CHR ''Q'', piece_color] @ ''_'' @ str_nat queen_number"

subsection \<open>The game object\<close>

record game =
  heap :: "ref \<Rightarrow> piece"
  pieces :: "ref list"
  pos :: "(cell \<times> ref list) list"
  piece_by_id :: "(string \<times> ref) list"
  promoted_pawns :: "string set"
  promoted_queens :: "string set"
  piece_previous_positions :: "(string \<times> cell) list"
  should_exit :: bool
  win_announced :: bool \<comment> \<open>\<^verbatim>\<open>hasattr(self, '_win_announced')\<close>\<close>
  score_tracker :: score_tracker
  published :: "event list" \<comment> \<open>the events passed to \<^verbatim>\<open>event_manager.publish\<close>, in order\<close>

text \<open>
  The bus of a game has the move tracker, the score tracker, the on-screen messages and the
  sounds as subscribers.  None of them raises past the bus and only the score tracker's state
  is read back by the game (for \<^verbatim>\<open>final_scores\<close>), so publishing records the event and lets
  the score tracker handle it; an exception of the handler is caught by the bus.
\<close>

definition score_tracker_handle :: "event \<Rightarrow> score_tracker \<Rightarrow> score_tracker" where
  "score_tracker_handle ev st =
     (case etype ev of
        PIECE_CAPTURED \<Rightarrow> (case on_piece_captured ev st of Inl _ \<Rightarrow> st | Inr st' \<Rightarrow> st')
      | GAME_STARTED \<Rightarrow> on_game_started ev st
      | _ \<Rightarrow> st)"

definition game_publish :: "event \<Rightarrow> game \<Rightarrow> game" where
  "game_publish ev g =
     g\<lparr>published := published g @ [ev], score_tracker := score_tracker_handle ev (score_tracker g)\<rparr>"

subsection \<open>Construction: \_validate and \_\_init\_\_\<close>

text \<open>
  \<^verbatim>\<open>_validate\<close>: \<open>seen_cells\<close> keeps, for each cell, the side of the first piece found there.
\<close>

fun validate_loop :: "piece list \<Rightarrow> (cell \<times> char) list \<Rightarrow> bool \<Rightarrow> bool \<Rightarrow> error + bool" where
  "validate_loop [] seen_cells has_white_king has_black_king =
     Inr (has_white_king \<and> has_black_king)"
| "validate_loop (p # ps) seen_cells has_white_king has_black_king =
     (let cell = current_cell (state p) in
      case side_of (pid p) of
        Inl e \<Rightarrow> Inl e
      | Inr side \<Rightarrow>
         (case map_of seen_cells cell of
            Some s \<Rightarrow>
              if s = side then Inr False
              else if startswith (pid p) ''KW'' then validate_loop ps seen_cells True has_black_king
              else if startswith (pid p) ''KB'' then validate_loop ps seen_cells has_white_king True
              else validate_loop ps seen_cells has_white_king has_black_king
          | None \<Rightarrow>
              if startswith (pid p) ''KW''
                then validate_loop ps (seen_cells @ [(cell, side)]) True has_black_king
              else if startswith (pid p) ''KB''
                then validate_loop ps (seen_cells @ [(cell, side)]) has_white_king True
              else validate_loop ps (seen_cells @ [(cell, side)]) has_white_king has_black_king))"

definition validate :: "piece list \<Rightarrow> error + bool" where
  "validate ps = validate_loop ps [] False False"

text \<open>\<^verbatim>\<open>{p.id: p for p in pieces}\<close>: a later piece with the same id replaces an earlier one.\<close>

definition index_by_id :: "(ref \<Rightarrow> piece) \<Rightarrow> ref list \<Rightarrow> (string \<times> ref) list" where
  "index_by_id h ps = foldl (\<lambda>d p. AList.update (pid (h p)) p d) [] ps"

definition Game_init :: "(ref \<Rightarrow> piece) \<Rightarrow> ref list \<Rightarrow> error + game" where
  "Game_init h ps =
     (case validate (map h ps) of
        Inl e \<Rightarrow> Inl e
      | Inr False \<Rightarrow> Inl InvalidBoard
      | Inr True \<Rightarrow>
          Inr \<lparr>heap = h, pieces = ps, pos = [], piece_by_id = index_by_id h ps,
               promoted_pawns = {}, promoted_queens = {}, piece_previous_positions = [],
               should_exit = False, win_announced = False,
               score_tracker = new_score_tracker, published = []\<rparr>)"

subsection \<open>The occupancy index\<close>

text \<open>\<^verbatim>\<open>self.pos[cell].append(p)\<close> on a \<^verbatim>\<open>defaultdict(list)\<close>; a new cell goes to the end.\<close>

definition pos_append :: "cell \<Rightarrow> ref \<Rightarrow> (cell \<times> ref list) list \<Rightarrow> (cell \<times> ref list) list" where
  "pos_append c p m =
     AList.update c ((case map_of m c of None \<Rightarrow> [] | Some ps \<Rightarrow> ps) @ [p]) m"

definition build_pos :: "(ref \<Rightarrow> piece) \<Rightarrow> ref list \<Rightarrow> (cell \<times> ref list) list" where
  "build_pos h ps = foldl (\<lambda>m p. pos_append (current_cell (state (h p))) p m) [] ps"

definition update_cell2piece_map :: "game \<Rightarrow> game" where
  "update_cell2piece_map g = g\<lparr>pos := build_pos (heap g) (pieces g)\<rparr>"

text \<open>\<^verbatim>\<open>self.pos.get(cell, [])\<close>.\<close>

definition pos_get :: "game \<Rightarrow> cell \<Rightarrow> ref list" where
  "pos_get g c = (case map_of (pos g) c of None \<Rightarrow> [] | Some ps \<Rightarrow> ps)"

subsection \<open>Collision resolution: \_resolve\_collisions\<close>

text \<open>
  The guard that recurs in \<^verbatim>\<open>_resolve_collisions\<close>: the physics is a \<^verbatim>\<open>KnightJumpPhysics\<close>, it
  has the method \<^verbatim>\<open>can_capture_at_current_position\<close>, and the method answers no.
\<close>

definition passing_through :: "pstate \<Rightarrow> bool" where
  "passing_through s =
     (if is_KnightJumpPhysics s then
        (if has_landing_test s then (if \<not> can_capture_at_current_position s then True else False)
         else False)
      else False)"

text \<open>The test that puts an occupant into \<^verbatim>\<open>attacking_pieces\<close>.\<close>

definition is_attacking :: "pstate \<Rightarrow> bool" where
  "is_attacking s =
     (if can_capture s then
        (if is_KnightJumpPhysics s then
           (if has_landing_test s then (if can_capture_at_current_position s then True else False)
            else True)
         else True)
      else False)"

text \<open>
  \<^verbatim>\<open>max(xs, key=...)\<close>: the first element whose key is greatest; \<^verbatim>\<open>ValueError\<close> on an empty
  list.
\<close>

fun py_max_from :: "('a \<Rightarrow> int) \<Rightarrow> 'a \<Rightarrow> 'a list \<Rightarrow> 'a" where
  "py_max_from key best [] = best"
| "py_max_from key best (x # xs) = py_max_from key (if key best < key x then x else best) xs"

definition py_max :: "('a \<Rightarrow> int) \<Rightarrow> 'a list \<Rightarrow> error + 'a" where
  "py_max key xs = (case xs of [] \<Rightarrow> Inl ValueError | x # rest \<Rightarrow> Inr (py_max_from key x rest))"

definition start_key :: "(ref \<Rightarrow> piece) \<Rightarrow> ref \<Rightarrow> int" where
  "start_key h p = get_start_ms (state (h p))"

definition attacking_pieces :: "(ref \<Rightarrow> piece) \<Rightarrow> ref list \<Rightarrow> ref list" where
  "attacking_pieces h plist = filter (\<lambda>p. is_attacking (state (h p))) plist"

text \<open>The choice of the winner of a cell; \<open>None\<close> is the \<^verbatim>\<open>continue\<close> that leaves the cell alone.\<close>

definition select_winner :: "(ref \<Rightarrow> piece) \<Rightarrow> ref list \<Rightarrow> error + ref option" where
  "select_winner h plist =
     (if attacking_pieces h plist = [] then
        (let knights_passing_through = filter (\<lambda>p. passing_through (state (h p))) plist;
             non_knight_pieces = filter (\<lambda>p. \<not> passing_through (state (h p))) plist
         in if non_knight_pieces \<noteq> [] then map_sum id Some (py_max (start_key h) non_knight_pieces)
            else if knights_passing_through \<noteq> [] then Inr None
            else map_sum id Some (py_max (start_key h) plist))
      else map_sum id Some (py_max (start_key h) (attacking_pieces h plist)))"

text \<open>
  The loop that fills \<^verbatim>\<open>captured_pieces\<close> and removes the captured pieces from \<^verbatim>\<open>self.pieces\<close>.
  \<^verbatim>\<open>p is winner\<close> compares objects; \<^verbatim>\<open>self.pieces.remove(p)\<close> removes the first occurrence and
  raises \<^verbatim>\<open>ValueError\<close> when there is none.
\<close>

fun capture_loop ::
  "(ref \<Rightarrow> piece) \<Rightarrow> ref \<Rightarrow> ref list \<Rightarrow> ref list \<Rightarrow> ref list \<Rightarrow> error + (ref list \<times> ref list)" where
  "capture_loop h winner [] captured_pieces pcs = Inr (captured_pieces, pcs)"
| "capture_loop h winner (p # ps) captured_pieces pcs =
     (if p = winner then capture_loop h winner ps captured_pieces pcs
      else if passing_through (state (h p)) then capture_loop h winner ps captured_pieces pcs
      else if can_be_captured (state (h p)) then
        (case side_of (pid (h p)) of
           Inl e \<Rightarrow> Inl e
         | Inr sp \<Rightarrow>
            (case side_of (pid (h winner)) of
               Inl e \<Rightarrow> Inl e
             | Inr sw \<Rightarrow>
                if sp \<noteq> sw then
                  (if p \<in> set pcs
                   then capture_loop h winner ps (captured_pieces @ [p]) (remove1 p pcs)
                   else Inl ValueError)
                else capture_loop h winner ps captured_pieces pcs))
      else capture_loop h winner ps captured_pieces pcs)"

text \<open>\<^verbatim>\<open>self.piece_previous_positions.get(winner.id, (0, 0))\<close>.\<close>

definition attacker_prev_pos :: "game \<Rightarrow> string \<Rightarrow> cell" where
  "attacker_prev_pos g winner_id =
     (case map_of (piece_previous_positions g) winner_id of None \<Rightarrow> (0, 0) | Some c \<Rightarrow> c)"

definition capture_event :: "game \<Rightarrow> cell \<Rightarrow> ref \<Rightarrow> ref \<Rightarrow> event" where
  "capture_event g cell winner captured_piece =
     Event PIECE_CAPTURED
       [(''piece_type'', PStr (pid (heap g captured_piece))),
        (''captured_by'', PStr (pid (heap g winner))),
        (''from_position'', PPair (attacker_prev_pos g (pid (heap g winner)))),
        (''position'', PPair cell)]"

fun publish_captures :: "cell \<Rightarrow> ref \<Rightarrow> ref list \<Rightarrow> game \<Rightarrow> game" where
  "publish_captures cell winner [] g = g"
| "publish_captures cell winner (c # cs) g =
     publish_captures cell winner cs (game_publish (capture_event g cell winner c) g)"

definition resolve_cell :: "cell \<times> ref list \<Rightarrow> game \<Rightarrow> error + game" where
  "resolve_cell entry g =
     (case entry of (cell, plist) \<Rightarrow>
        if length plist < 2 then Inr g
        else
          (case select_winner (heap g) plist of
             Inl e \<Rightarrow> Inl e
           | Inr None \<Rightarrow> Inr g
           | Inr (Some winner) \<Rightarrow>
              (case capture_loop (heap g) winner plist [] (pieces g) of
                 Inl e \<Rightarrow> Inl e
               | Inr (captured_pieces, pcs) \<Rightarrow>
                   Inr (publish_captures cell winner captured_pieces (g\<lparr>pieces := pcs\<rparr>)))))"

fun resolve_cells :: "(cell \<times> ref list) list \<Rightarrow> game \<Rightarrow> error + game" where
  "resolve_cells [] g = Inr g"
| "resolve_cells (entry # entries) g =
     (case resolve_cell entry g of Inl e \<Rightarrow> Inl e | Inr g' \<Rightarrow> resolve_cells entries g')"

definition resolve_collisions :: "game \<Rightarrow> error + game" where
  "resolve_collisions g =
     (let g1 = update_cell2piece_map g in resolve_cells (pos g1) g1)"

subsection \<open>Promotion\<close>

text \<open>The \<^verbatim>\<open>while\<close> loop that looks for a queen number whose id is no key of the lookup.\<close>

function find_queen_number :: "(string \<times> ref) list \<Rightarrow> char \<Rightarrow> nat \<Rightarrow> nat" where
  "find_queen_number d piece_color queen_number =
     (if queen_id piece_color queen_number \<in> set (map fst d)
      then find_queen_number d piece_color (Suc queen_number)
      else queen_number)"
  by pat_completeness auto

text \<open>Reading a decimal numeral back, to show that different numbers give different ids.\<close>

definition digit_val :: "char \<Rightarrow> nat" where
  "digit_val c = of_char c - 48"

definition parse_nat :: "string \<Rightarrow> nat" where
  "parse_nat s = foldl (\<lambda>a c. 10 * a + digit_val c) 0 s"

lemma digit_val_digit_char: "d < 10 \<Longrightarrow> digit_val (digit_char d) = d"
proof -
  assume "d < 10"
  then have "d = 0 \<or> d = 1 \<or> d = 2 \<or> d = 3 \<or> d = 4 \<or> d = 5 \<or> d = 6 \<or> d = 7 \<or> d = 8 \<or> d = 9"
    by arith
  then show ?thesis
    by (elim disjE) (simp_all add: digit_val_def digit_char_def)
qed

lemma parse_nat_str_nat: "parse_nat (str_nat n) = n"
proof (induction n rule: str_nat.induct)
  case (1 n)
  show ?case
  proof (cases "n < 10")
    case True
    then show ?thesis by (simp add: str_nat.simps [of n] parse_nat_def digit_val_digit_char)
  next
    case False
    with 1 have "parse_nat (str_nat (n div 10)) = n div 10" by simp
    with False show ?thesis
      by (simp add: str_nat.simps [of n] parse_nat_def digit_val_digit_char)
  qed
qed

lemma queen_id_inj: "queen_id c a = queen_id c b \<Longrightarrow> a = b"
proof -
  assume "queen_id c a = queen_id c b"
  then have "str_nat a = str_nat b" by (simp add: queen_id_def)
  then have "parse_nat (str_nat a) = parse_nat (str_nat b)" by simp
  then show ?thesis by (simp add: parse_nat_str_nat)
qed

lemma finite_queen_numbers: "finite {m. queen_id c m \<in> set ks}"
proof -
  have "inj (queen_id c)" by (rule injI) (rule queen_id_inj)
  then have "finite (queen_id c -` set ks)" by (intro finite_vimageI) simp_all
  then show ?thesis by (simp add: vimage_def)
qed

termination find_queen_number
proof (relation "measure (\<lambda>(d, c, n). card {m. n \<le> m \<and> queen_id c m \<in> set (map fst d)})")
  show "wf (measure (\<lambda>(d, c, n). card {m. n \<le> m \<and> queen_id c m \<in> set (map fst d)}))" by simp
next
  fix d :: "(string \<times> ref) list" and piece_color queen_number
  assume k: "queen_id piece_color queen_number \<in> set (map fst d)"
  let ?A = "{m. Suc queen_number \<le> m \<and> queen_id piece_color m \<in> set (map fst d)}"
  let ?B = "{m. queen_number \<le> m \<and> queen_id piece_color m \<in> set (map fst d)}"
  have fin: "finite ?B"
    by (rule finite_subset [OF _ finite_queen_numbers [of piece_color "map fst d"]]) auto
  have "queen_number \<in> ?B" "queen_number \<notin> ?A" using k by auto
  moreover have "?A \<subseteq> ?B" by auto
  ultimately have "?A \<subset> ?B" by blast
  then have "card ?A < card ?B" using fin by (simp add: psubset_card_mono)
  then show "((d, piece_color, Suc queen_number), (d, piece_color, queen_number))
        \<in> measure (\<lambda>(d, c, n). card {m. n \<le> m \<and> queen_id c m \<in> set (map fst d)})"
    by simp
qed

declare find_queen_number.simps [simp del]

text \<open>
  \<^verbatim>\<open>_promote_pawn_to_queen\<close>.  \<^verbatim>\<open>del self.piece_by_id[old_id]\<close> raises \<^verbatim>\<open>KeyError\<close> when the id
  is no key.  The temporary message and the sound are presentation and are left out.
\<close>

definition promotion_event :: "string \<Rightarrow> string \<Rightarrow> cell \<Rightarrow> event" where
  "promotion_event new_id old_id new_position =
     Event PIECE_MOVED
       [(''piece'', PStr new_id),
        (''from'', PPair new_position),
        (''to'', PPair new_position),
        (''command_type'', PStr ''promotion''),
        (''promotion'', PBool True),
        (''old_piece_id'', PStr old_id)]"

definition promote_pawn_to_queen :: "env \<Rightarrow> ref \<Rightarrow> game \<Rightarrow> error + game" where
  "promote_pawn_to_queen E pawn g =
     (let old_id = pid (heap g pawn) in
      if \<not> startswith old_id ''P'' then Inr g
      else
        (case side_of old_id of
           Inl e \<Rightarrow> Inl e
         | Inr piece_color \<Rightarrow>
            (let queen_number = find_queen_number (piece_by_id g) piece_color 1;
                 new_id = queen_id piece_color queen_number
             in if old_id \<notin> set (map fst (piece_by_id g)) then Inl KeyError
                else
                  (let d1 = AList.delete old_id (piece_by_id g);
                       d2 = AList.update new_id pawn d1;
                       old_state = state (heap g pawn);
                       new_state = (case queen_swap E new_id old_state of
                                      None \<Rightarrow> old_state | Some s \<Rightarrow> s);
                       g1 = g\<lparr>heap := (heap g)(pawn := \<lparr>pid = new_id, state = new_state\<rparr>),
                              piece_by_id := d2,
                              promoted_queens := insert new_id (promoted_queens g)\<rparr>;
                       new_position = current_cell new_state
                   in Inr (game_publish (promotion_event new_id old_id new_position) g1)))))"

text \<open>
  The list comprehension of \<^verbatim>\<open>_check_pawn_promotion\<close> calls \<^verbatim>\<open>_side_of\<close> on every other id
  found at the position; its value is not used, but it can raise.
\<close>

fun enemy_pieces_at_location :: "(ref \<Rightarrow> piece) \<Rightarrow> string \<Rightarrow> char \<Rightarrow> ref list \<Rightarrow> error + ref list" where
  "enemy_pieces_at_location h piece_id' piece_color [] = Inr []"
| "enemy_pieces_at_location h piece_id' piece_color (p # ps) =
     (if pid (h p) \<noteq> piece_id' then
        (case side_of (pid (h p)) of
           Inl e \<Rightarrow> Inl e
         | Inr s \<Rightarrow>
            (case enemy_pieces_at_location h piece_id' piece_color ps of
               Inl e \<Rightarrow> Inl e
             | Inr rest \<Rightarrow> Inr (if s \<noteq> piece_color then p # rest else rest)))
      else enemy_pieces_at_location h piece_id' piece_color ps)"

definition check_pawn_promotion :: "env \<Rightarrow> ref \<Rightarrow> cell \<Rightarrow> game \<Rightarrow> error + game" where
  "check_pawn_promotion E piece' position g =
     (let i = pid (heap g piece') in
      if \<not> startswith i ''P'' then Inr g
      else if i \<in> promoted_pawns g then Inr g
      else
        (case side_of i of
           Inl e \<Rightarrow> Inl e
         | Inr piece_color \<Rightarrow>
            (let row = fst position;
                 should_promote =
                   (if piece_color = CHR ''W'' \<and> row = 0 then True
                    else if piece_color = CHR ''B'' \<and> row = 7 then True
                    else False)
             in if should_promote then
                  (let g1 = update_cell2piece_map g in
                   case enemy_pieces_at_location (heap g1) i piece_color (pos_get g1 position) of
                     Inl e \<Rightarrow> Inl e
                   | Inr _ \<Rightarrow>
                       promote_pawn_to_queen E piece'
                         (g1\<lparr>promoted_pawns := insert i (promoted_pawns g1)\<rparr>))
                else Inr g)))"

text \<open>\<^verbatim>\<open>_check_post_collision_promotions\<close>: a scan of the live pieces.\<close>

fun post_collision_scan :: "env \<Rightarrow> ref list \<Rightarrow> game \<Rightarrow> error + game" where
  "post_collision_scan E [] g = Inr g"
| "post_collision_scan E (p # ps) g =
     (let i = pid (heap g p) in
      if startswith i ''P'' \<and> i \<notin> promoted_pawns g then
        (case side_of i of
           Inl e \<Rightarrow> Inl e
         | Inr piece_color \<Rightarrow>
            (let current_pos = current_cell (state (heap g p)) in
             if (piece_color = CHR ''W'' \<and> fst current_pos = 0)
                \<or> (piece_color = CHR ''B'' \<and> fst current_pos = 7)
             then (case check_pawn_promotion E p current_pos g of
                     Inl e \<Rightarrow> Inl e
                   | Inr g' \<Rightarrow> post_collision_scan E ps g')
             else post_collision_scan E ps g))
      else post_collision_scan E ps g)"

definition check_post_collision_promotions :: "env \<Rightarrow> game \<Rightarrow> error + game" where
  "check_post_collision_promotions E g = post_collision_scan E (pieces g) g"

subsection \<open>Command processing: \_process\_input\<close>

text \<open>The occupancy index as \<^verbatim>\<open>on_command\<close> receives it: cells with the pieces found there.\<close>

definition occupancy :: "game \<Rightarrow> (cell \<times> piece list) list" where
  "occupancy g = map (\<lambda>(c, ps). (c, map (heap g) ps)) (pos g)"

definition is_move_type :: "string \<Rightarrow> bool" where
  "is_move_type t = (t = ''move'' \<or> t = ''capture'' \<or> t = ''jump'')"

definition moved_event :: "string \<Rightarrow> cell \<Rightarrow> cell \<Rightarrow> string \<Rightarrow> event" where
  "moved_event piece_id' from_pos to_pos command_type =
     Event PIECE_MOVED
       [(''piece'', PStr piece_id'), (''from'', PPair from_pos), (''to'', PPair to_pos),
        (''command_type'', PStr command_type)]"

definition turn_event :: "string \<Rightarrow> string \<Rightarrow> event" where
  "turn_event player_color piece_id' =
     Event TURN_CHANGED [(''current_player'', PStr player_color), (''move_piece'', PStr piece_id')]"

definition player_color_of :: "string \<Rightarrow> error + string" where
  "player_color_of piece_id' =
     (case side_of piece_id' of
        Inl e \<Rightarrow> Inl e
      | Inr c \<Rightarrow> Inr (if c = CHR ''W'' then ''white'' else ''black''))"

definition process_input :: "env \<Rightarrow> command \<Rightarrow> game \<Rightarrow> error + game" where
  "process_input E cmd g =
     (if ctype cmd = ''exit'' then Inr (g\<lparr>should_exit := True\<rparr>)
      else
        (case map_of (piece_by_id g) (piece_id cmd) of
           None \<Rightarrow> Inr g
         | Some mover \<Rightarrow>
            (let old = state (heap g mover);
                 old_position = current_cell old;
                 old_state = state_obj old;
                 g1 = g\<lparr>piece_previous_positions :=
                          AList.update (piece_id cmd) old_position (piece_previous_positions g)\<rparr>;
                 is_move_command = (is_move_type (ctype cmd) \<and> length (params cmd) \<ge> 2);
                 is_potential_capture =
                   (is_move_command \<and>
                    (case moves_tags old of
                       None \<Rightarrow> False
                     | Some tags \<Rightarrow>
                        (case map_of tags
                                (fst (params cmd ! 1) - fst (params cmd ! 0),
                                 snd (params cmd ! 1) - snd (params cmd ! 0)) of
                           None \<Rightarrow> False
                         | Some tag \<Rightarrow> tag = ''capture'')));
                 new = piece_on_command E cmd (occupancy g1) old;
                 g2 = g1\<lparr>heap := (heap g1)(mover := (heap g1 mover)\<lparr>state := new\<rparr>)\<rparr>;
                 new_position = current_cell new;
                 new_state = state_obj new;
                 position_changed = (old_position \<noteq> new_position);
                 state_transitioned = (old_state \<noteq> new_state);
                 announced =
                   (if is_move_command \<and>
                       (position_changed \<or> (state_transitioned \<and> contains ''move'' (state_str_lower new)))
                    then
                      (if \<not> is_potential_capture then
                         (case player_color_of (piece_id cmd) of
                            Inl e \<Rightarrow> Inl e
                          | Inr player_color \<Rightarrow>
                              Inr (game_publish (turn_event player_color (piece_id cmd))
                                    (game_publish
                                       (moved_event (piece_id cmd) old_position (params cmd ! 1) (ctype cmd))
                                       g2)))
                       else Inr g2)
                    else if position_changed then
                      (case player_color_of (piece_id cmd) of
                         Inl e \<Rightarrow> Inl e
                       | Inr player_color \<Rightarrow>
                           Inr (game_publish
                                  (moved_event (piece_id cmd) old_position new_position (ctype cmd)) g2))
                    else Inr g2)
             in case announced of
                  Inl e \<Rightarrow> Inl e
                | Inr g3 \<Rightarrow>
                    if startswith (pid (heap g3 mover)) ''P'' \<and> ctype cmd = ''move''
                       \<and> length (params cmd) \<ge> 2
                    then check_pawn_promotion E mover (current_cell (state (heap g3 mover))) g3
                    else Inr g3)))"

fun drain_queue :: "env \<Rightarrow> command list \<Rightarrow> game \<Rightarrow> error + game" where
  "drain_queue E [] g = Inr g"
| "drain_queue E (cmd # cmds) g =
     (case process_input E cmd g of Inl e \<Rightarrow> Inl e | Inr g' \<Rightarrow> drain_queue E cmds g')"

subsection \<open>The win check and the game loop\<close>

definition is_king_id :: "string \<Rightarrow> bool" where
  "is_king_id i = (startswith i ''KW'' \<or> startswith i ''KB'')"

definition kings :: "game \<Rightarrow> ref list" where
  "kings g = filter (\<lambda>p. is_king_id (pid (heap g p))) (pieces g)"

definition is_win :: "game \<Rightarrow> bool" where
  "is_win g = (length (kings g) < 2)"

definition winner_text :: "game \<Rightarrow> string" where
  "winner_text g =
     (if \<exists>p \<in> set (pieces g). startswith (pid (heap g p)) ''KB'' then ''Black wins!''
      else ''White wins!'')"

definition check_and_announce_win :: "game \<Rightarrow> game" where
  "check_and_announce_win g =
     (if is_win g then
        (if \<not> win_announced g then
           game_publish
             (Event GAME_ENDED
                [(''final_scores'', PPair (get_scores (score_tracker g))),
                 (''winner'', PStr (winner_text g))])
             (g\<lparr>win_announced := True\<rparr>)
         else g)
      else g)"

text \<open>
  One iteration of \<^verbatim>\<open>_run_game_loop\<close>, given the clock reading \<open>now\<close> and the commands found in
  the input queue.  Drawing and the graphics of promoted queens are presentation and are left
  out.
\<close>

definition update_pieces :: "env \<Rightarrow> int \<Rightarrow> game \<Rightarrow> game" where
  "update_pieces E now g =
     g\<lparr>heap := foldl (\<lambda>h p. h(p := (h p)\<lparr>state := piece_update E now (state (h p))\<rparr>))
                 (heap g) (pieces g)\<rparr>"

definition tick :: "env \<Rightarrow> int \<times> command list \<Rightarrow> game \<Rightarrow> error + game" where
  "tick E input g =
     (case input of (now, cmds) \<Rightarrow>
        (let g1 = update_cell2piece_map (update_pieces E now g) in
         case drain_queue E cmds g1 of
           Inl e \<Rightarrow> Inl e
         | Inr g2 \<Rightarrow>
            (case resolve_collisions g2 of
               Inl e \<Rightarrow> Inl e
             | Inr g3 \<Rightarrow>
                (case check_post_collision_promotions E g3 of
                   Inl e \<Rightarrow> Inl e
                 | Inr g4 \<Rightarrow> Inr (check_and_announce_win g4)))))"

text \<open>
  \<^verbatim>\<open>_run_game_loop\<close> for \<^verbatim>\<open>num_iterations\<close> equal to the length of the list of inputs (at least
  one): it stops before an iteration when \<^verbatim>\<open>should_exit\<close> is set, and after the last one.
\<close>

fun run_game_loop :: "env \<Rightarrow> (int \<times> command list) list \<Rightarrow> game \<Rightarrow> error + game" where
  "run_game_loop E [] g = Inr g"
| "run_game_loop E (input # inputs) g =
     (if should_exit g then Inr g
      else (case tick E input g of Inl e \<Rightarrow> Inl e | Inr g' \<Rightarrow> run_game_loop E inputs g'))"

definition reset_pieces :: "env \<Rightarrow> int \<Rightarrow> game \<Rightarrow> game" where
  "reset_pieces E start_ms g =
     g\<lparr>heap := foldl (\<lambda>h p. h(p := (h p)\<lparr>state := piece_reset E start_ms (state (h p))\<rparr>))
                 (heap g) (pieces g)\<rparr>"

text \<open>\<^verbatim>\<open>run\<close>; \<open>START_NS\<close> is the clock reading taken at construction.\<close>

definition run :: "env \<Rightarrow> int \<Rightarrow> (int \<times> command list) list \<Rightarrow> game \<Rightarrow> error + game" where
  "run E START_NS inputs g =
     (let g1 = game_publish (Event GAME_STARTED []) g;
          g2 = reset_pieces E START_NS g1
      in case run_game_loop E inputs g2 of
           Inl e \<Rightarrow> Inl e
         | Inr g3 \<Rightarrow>
             Inr (game_publish
                    (Event GAME_ENDED [(''final_scores'', PPair (get_scores (score_tracker g3)))])
                    g3))"

text \<open>The number of events of a type among the published ones.\<close>

definition count_published :: "EventType \<Rightarrow> game \<Rightarrow> nat" where
  "count_published t g = length (filter (\<lambda>ev. etype ev = t) (published g))"

subsection \<open>The outcome of a cell, read off the loop of \_resolve\_collisions\<close>

text \<open>
  The notions of the claims about collision resolution, written from their words and not from
  the code.  A knight passes through a cell when its physics is a knight jump that reports that
  it cannot capture at its current position.  An occupant is an attacker when its state reports
  \<^verbatim>\<open>can_capture()\<close>, a piece in a knight jump counting only when its physics reports that it
  can capture at its current position (a knight-jump physics without this report, of which the
  claims say nothing, counts like any other piece).  \<open>attackers\<close> lists the attackers among the
  occupants of a cell.
\<close>

definition pass_through_knight :: "pstate \<Rightarrow> bool" where
  "pass_through_knight s =
     (is_KnightJumpPhysics s \<and> has_landing_test s \<and> \<not> can_capture_at_current_position s)"

definition attacker :: "pstate \<Rightarrow> bool" where
  "attacker s =
     (can_capture s \<and>
      (is_KnightJumpPhysics s \<and> has_landing_test s \<longrightarrow> can_capture_at_current_position s))"

definition attackers :: "(ref \<Rightarrow> piece) \<Rightarrow> ref list \<Rightarrow> ref list" where
  "attackers h plist = filter (\<lambda>p. attacker (state (h p))) plist"

text \<open>
  The occupants \<open>p\<close> of a cell that the winner \<open>w\<close> captures, for ids of at least two
  characters: \<open>p\<close> is not the winner, reports \<^verbatim>\<open>can_be_captured()\<close>, is no knight passing through,
  and its side differs from the winner's.  \<open>cell_captures\<close> lists the occupants of a cell that the
  winner chosen by the code captures and \<open>cell_events\<close> the events published for them;
  \<open>occupants\<close> lists the pieces of an occupancy index.
\<close>

definition capturable_by :: "(ref \<Rightarrow> piece) \<Rightarrow> ref \<Rightarrow> ref \<Rightarrow> bool" where
  "capturable_by h w p =
     (p \<noteq> w \<and> can_be_captured (state (h p)) \<and> \<not> pass_through_knight (state (h p))
      \<and> pid (h p) ! 1 \<noteq> pid (h w) ! 1)"

definition cell_captures :: "game \<Rightarrow> cell \<times> ref list \<Rightarrow> ref list" where
  "cell_captures g entry =
     (if length (snd entry) < 2 then []
      else (case select_winner (heap g) (snd entry) of
              Inr (Some w) \<Rightarrow> filter (capturable_by (heap g) w) (snd entry)
            | _ \<Rightarrow> []))"

definition cell_events :: "game \<Rightarrow> cell \<times> ref list \<Rightarrow> event list" where
  "cell_events g entry =
     (case select_winner (heap g) (snd entry) of
        Inr (Some w) \<Rightarrow> map (capture_event g (fst entry) w) (cell_captures g entry)
      | _ \<Rightarrow> [])"

definition occupants :: "(cell \<times> ref list) list \<Rightarrow> ref list" where
  "occupants m = concat (map snd m)"





subsection \<open>Scenarios used to instantiate the theorems\<close>


definition leaving :: "event list behaviour" where
  "leaving cb ev w em =
     (if cb = 1 then (Returned, w, [Unsubscribe (etype ev) 1]) else (Returned, w @ [ev], []))"

definition two_subscribers :: EventManager where
  "two_subscribers = subscribe PIECE_MOVED 2 (subscribe PIECE_MOVED 1 new_EventManager)"

definition sample_moved :: event where
  "sample_moved = Event PIECE_MOVED [(''piece'', PStr ''PW1''), (''from'', PPair (6, 0)), (''to'', PPair (4, 0))]"

definition fresh_run :: "event list bus_run" where
  "fresh_run = \<lparr>world = [], manager = two_subscribers, calls = [], printed = 0\<rparr>"

text \<open>
  Pieces for the scenarios: a piece at rest, a piece that arrives at a cell by a move started
  at a given time, and a board made of a list of pieces, which are referenced by their index.
\<close>

definition resting :: "cell \<Rightarrow> pstate" where
  "resting c =
     \<lparr>state_obj = 0, state_str_lower = ''idle'', moves_tags = None, current_cell = c,
      can_capture = False, can_be_captured = True, is_KnightJumpPhysics = False,
      has_landing_test = False, can_capture_at_current_position = False, get_start_ms = 0,
      hidden = []\<rparr>"

definition arriving :: "cell \<Rightarrow> int \<Rightarrow> pstate" where
  "arriving c t = (resting c)\<lparr>state_obj := 1, state_str_lower := ''move'', can_capture := True, get_start_ms := t\<rparr>"

definition mk_piece :: "string \<Rightarrow> pstate \<Rightarrow> piece" where
  "mk_piece i s = \<lparr>pid = i, state = s\<rparr>"

definition heap_of :: "piece list \<Rightarrow> ref \<Rightarrow> piece" where
  "heap_of ps r = (if r < length ps then ps ! r else mk_piece ''??'' (resting (0, 0)))"

definition board :: "piece list \<Rightarrow> ref list \<Rightarrow> game" where
  "board ps rs =
     \<lparr>heap = heap_of ps, pieces = rs, pos = [], piece_by_id = index_by_id (heap_of ps) rs,
      promoted_pawns = {}, promoted_queens = {}, piece_previous_positions = [],
      should_exit = False, win_announced = False,
      score_tracker = new_score_tracker, published = []\<rparr>"

text \<open>
  The scenario of two opposing pawns on one cell: the white pawn \<^verbatim>\<open>PW2\<close> has arrived at
  \<open>(4, 4)\<close> by a move started at 100, and the black pawn \<^verbatim>\<open>PB2\<close>, at rest on \<open>(3, 4)\<close>, is
  commanded at 200 to move there.  In \<open>teleporting\<close> a piece that is commanded to move is on
  the target cell at once.  \<open>clash\<close> is the game after the command.
\<close>

definition teleporting :: env where
  "teleporting =
     \<lparr>piece_update = (\<lambda>now s. s), piece_reset = (\<lambda>start_ms s. s),
      piece_on_command = (\<lambda>cmd occ s. arriving (params cmd ! 1) (timestamp cmd)),
      queen_swap = (\<lambda>i s. None)\<rparr>"

definition before_clash :: game where
  "before_clash =
     (board [mk_piece ''KW1'' (resting (7, 4)), mk_piece ''KB1'' (resting (0, 4)),
             mk_piece ''PW2'' (arriving (4, 4) 100), mk_piece ''PB2'' (resting (3, 4))]
        [0, 1, 2, 3])\<lparr>piece_previous_positions := [(''PW2'', (5, 4))]\<rparr>"


definition clash :: game where
  "clash =
     game_publish (turn_event ''black'' ''PB2'')
       (game_publish (moved_event ''PB2'' (3, 4) (4, 4) ''move'')
          (before_clash\<lparr>piece_previous_positions := [(''PW2'', (5, 4)), (''PB2'', (3, 4))],
                         heap := (heap before_clash)(3 := mk_piece ''PB2'' (arriving (4, 4) 200))\<rparr>))"

definition landed_knight :: "cell \<Rightarrow> int \<Rightarrow> pstate" where
  "landed_knight c t =
     (arriving c t)\<lparr>is_KnightJumpPhysics := True, has_landing_test := True,
                     can_capture_at_current_position := True\<rparr>"

definition jumping_knight :: "cell \<Rightarrow> int \<Rightarrow> pstate" where
  "jumping_knight c t = (landed_knight c t)\<lparr>can_capture_at_current_position := False\<rparr>"

text \<open>A white knight passes over the cell (4, 4), where a black pawn rests.\<close>

definition flyover :: game where
  "flyover =
     board [mk_piece ''KW1'' (resting (7, 4)), mk_piece ''KB1'' (resting (0, 4)),
            mk_piece ''NW1'' (jumping_knight (4, 4) 300), mk_piece ''PB2'' (resting (4, 4))]
       [0, 1, 2, 3]"

text \<open>
  A white knight has landed on (4, 4) and cannot be captured in its state; a black pawn that
  can be captured arrives there by a move started later.
\<close>

definition late_arrival :: game where
  "late_arrival =
     board [mk_piece ''KW1'' (resting (7, 4)), mk_piece ''KB1'' (resting (0, 4)),
            mk_piece ''NW1'' ((landed_knight (4, 4) 100)\<lparr>can_be_captured := False\<rparr>),
            mk_piece ''PB2'' (arriving (4, 4) 200)]
       [0, 1, 2, 3]"

text \<open>
  A placement with both kings in which a white pawn and two black pawns stand on one cell.
\<close>

definition crowded_pieces :: "piece list" where
  "crowded_pieces =
     [mk_piece ''KW1'' (resting (7, 4)), mk_piece ''KB1'' (resting (0, 4)),
      mk_piece ''PW1'' (resting (3, 3)), mk_piece ''PB1'' (resting (3, 3)),
      mk_piece ''PB2'' (resting (3, 3))]"

text \<open>The types of the published events, in order.\<close>

definition published_types :: "game \<Rightarrow> EventType list" where
  "published_types g = map etype (published g)"

text \<open>
  A game in which the black queen is commanded onto the cell of the white king at the first
  iteration, and the exit command arrives at the second.
\<close>

definition endgame :: game where
  "endgame =
     board [mk_piece ''KW1'' (resting (7, 4)), mk_piece ''KB1'' (resting (0, 4)),
            mk_piece ''QB1'' (resting (6, 4))] [0, 1, 2]"

definition move_QB1 :: command where
  "move_QB1 = \<lparr>timestamp = 0, piece_id = ''QB1'', ctype = ''move'', params = [(6, 4), (7, 4)]\<rparr>"

definition exit_cmd :: command where
  "exit_cmd = \<lparr>timestamp = 16, piece_id = [], ctype = ''exit'', params = []\<rparr>"

text \<open>
  Scenario A after the move: the white pawn \<^verbatim>\<open>PW1\<close> has arrived at \<open>(0, 3)\<close>, its promotion row.
\<close>

definition last_rank :: game where
  "last_rank =
     board [mk_piece ''KW1'' (resting (7, 4)), mk_piece ''KB1'' (resting (0, 4)),
            mk_piece ''PW1'' (arriving (0, 3) 50)] [0, 1, 2]"




section \<open>Properties\<close>

subsection \<open>The score tracker\<close>

text \<open>The point values as the claim lists them.\<close>

definition spec_piece_value :: "char \<Rightarrow> int" where
  "spec_piece_value c =
     (if c = CHR ''P'' then 1 else if c = CHR ''N'' then 3 else if c = CHR ''B'' then 3
      else if c = CHR ''R'' then 5 else if c = CHR ''Q'' then 9 else if c = CHR ''K'' then 0 else 0)"

lemma piece_value_table:
  "(case map_of PIECE_VALUES c of Some v \<Rightarrow> v | None \<Rightarrow> 0) = spec_piece_value c"
  by (simp add: PIECE_VALUES_def spec_piece_value_def)

text \<open>
  Claim C10, as amended.  For a \<^verbatim>\<open>PIECE_CAPTURED\<close> event whose captured-piece id has at least
  two characters and whose second character is \<^verbatim>\<open>W\<close>, the value of the first character
  (P=1, N=3, B=3, R=5, Q=9, K=0, any other 0) is added to black's score and the id is appended to
  black's captured list; when the second character is \<^verbatim>\<open>B\<close> the same happens for white.  When
  the id is shorter than two characters, or its second character is neither \<^verbatim>\<open>W\<close> nor \<^verbatim>\<open>B\<close>,
  scores and lists are unchanged.
\<close>

theorem score_tracker_capture:
  assumes "map_of (data ev) ''piece_type'' = Some (PStr i)"
  shows "(2 \<le> length i \<and> i ! 1 = CHR ''W'' \<longrightarrow>
            on_piece_captured ev st =
              Inr (st\<lparr>black_score := black_score st + spec_piece_value (i ! 0),
                      captured_B := captured_B st @ [i]\<rparr>)) \<and>
         (2 \<le> length i \<and> i ! 1 = CHR ''B'' \<longrightarrow>
            on_piece_captured ev st =
              Inr (st\<lparr>white_score := white_score st + spec_piece_value (i ! 0),
                      captured_W := captured_W st @ [i]\<rparr>)) \<and>
         (length i < 2 \<or> (i ! 1 \<noteq> CHR ''W'' \<and> i ! 1 \<noteq> CHR ''B'') \<longrightarrow>
            on_piece_captured ev st = Inr st)"
  using assms
  by (auto simp: on_piece_captured_def score_captured_id_def Let_def piece_value_table)

theorem score_tracker_capture_witness:
  "on_piece_captured
       (Event PIECE_CAPTURED [(''piece_type'', PStr ''QW1''), (''captured_by'', PStr ''PB2'')])
       new_score_tracker
     = Inr \<lparr>white_score = 0, black_score = 9, captured_W = [], captured_B = [''QW1'']\<rparr>"
  using score_tracker_capture
    [of "Event PIECE_CAPTURED [(''piece_type'', PStr ''QW1''), (''captured_by'', PStr ''PB2'')]"
        "''QW1''" new_score_tracker]
  by (simp add: Event_def new_score_tracker_def spec_piece_value_def)

text \<open>
  The claim as stated fails for an id of two or more characters whose second character is no
  colour: the pawn's point is given to nobody and the id is appended to neither list.
\<close>

theorem score_tracker_other_colour_counterexample:
  "2 \<le> length ''PX1'' \<and>
   on_piece_captured
       (Event PIECE_CAPTURED [(''piece_type'', PStr ''PX1''), (''captured_by'', PStr ''QW1'')])
       new_score_tracker
     = Inr \<lparr>white_score = 0, black_score = 0, captured_W = [], captured_B = []\<rparr>"
  by (simp add: on_piece_captured_def score_captured_id_def Event_def new_score_tracker_def
      PIECE_VALUES_def)

subsection \<open>The event bus\<close>

lemma subscribers_of_getitem [simp]: "subscribers_of (getitem t em) t' = subscribers_of em t'"
  by (simp add: getitem_def subscribers_of_def update_conv')

lemma subscribers_of_subscribe:
  "subscribers_of (subscribe t cb em) t' =
     (if t' = t \<and> cb \<notin> set (subscribers_of em t) then subscribers_of em t @ [cb]
      else subscribers_of em t')"
  by (simp add: subscribe_def subscribers_of_def update_conv')













lemma subscribers_of_new: "subscribers_of new_EventManager t = []"
  by (simp add: new_EventManager_def subscribers_of_def)

lemma two_subscribers_list: "subscribers_of two_subscribers PIECE_MOVED = [1, 2]"
  by (simp add: two_subscribers_def subscribers_of_subscribe subscribers_of_new)

lemma sample_moved_type: "etype sample_moved = PIECE_MOVED"
  by (simp add: sample_moved_def Event_def)




text \<open>
  The loop walks the live list: when callback 1 unsubscribes itself while it is called,
  callback 2 moves to the index that the loop has already passed, and is not called.
\<close>

lemma leaving_handler_skips_next:
  "map_option (map_sum calls calls) (publish leaving sample_moved fresh_run)
     = Some (Inr [(1, sample_moved)])"
proof -
  let ?r0 = "fresh_run\<lparr>manager := getitem PIECE_MOVED (manager fresh_run)\<rparr>"
  let ?r1 = "?r0\<lparr>world := [], manager := unsubscribe PIECE_MOVED 1 (manager ?r0),
                  calls := [(1, sample_moved)]\<rparr>"
  have l0: "subscribers_of (manager ?r0) PIECE_MOVED = [1, 2]"
    by (simp add: fresh_run_def two_subscribers_list)
  have l1: "subscribers_of (manager ?r1) PIECE_MOVED = [2]"
    using l0 by (simp add: unsubscribe_def subscribers_of_def update_conv')
  have s1: "notify leaving sample_moved 0 None ?r0 = notify leaving sample_moved (Suc 0) None ?r1"
    using l0
    by (subst notify.simps)
       (simp add: iterated_def Let_def leaving_def apply_call_def sample_moved_type fresh_run_def)
  have s2: "notify leaving sample_moved (Suc 0) None ?r1 = Some (Inr ?r1)"
    using l1 by (subst notify.simps) (simp add: iterated_def sample_moved_type)
  have "publish leaving sample_moved fresh_run = Some (Inr ?r1)"
    unfolding publish_def sample_moved_type by (simp only: s1 s2)
  then show ?thesis by simp
qed

subsection \<open>Collision resolution\<close>

lemma passing_through_iff: "passing_through s = pass_through_knight s"
  by (simp add: passing_through_def pass_through_knight_def)

lemma is_attacking_iff: "is_attacking s = attacker s"
  by (auto simp: is_attacking_def attacker_def)

lemma attacking_pieces_attackers: "attacking_pieces h plist = attackers h plist"
  by (simp add: attacking_pieces_def attackers_def is_attacking_iff)

lemma py_max_from_mem: "py_max_from key b xs \<in> set (b # xs)"
  by (induction xs arbitrary: b) auto

lemma py_max_from_ge: "x \<in> set (b # xs) \<Longrightarrow> key x \<le> key (py_max_from key b xs)"
proof (induction xs arbitrary: b x)
  case Nil
  then show ?case by simp
next
  case (Cons y ys)
  have step: "key b \<le> key (py_max_from key (if key b < key y then y else b) ys)"
  proof (cases "key b < key y")
    case True
    have "key y \<le> key (py_max_from key y ys)" by (rule Cons.IH) simp
    with True show ?thesis by simp
  next
    case False
    have "key b \<le> key (py_max_from key b ys)" by (rule Cons.IH) simp
    with False show ?thesis by simp
  qed
  from Cons.prems consider "x = b" | "x = y" | "x \<in> set ys" by auto
  then show ?case
  proof cases
    case 1
    with step show ?thesis by simp
  next
    case 2
    have "key (if key b < key y then y else b) \<le> key (py_max_from key (if key b < key y then y else b) ys)"
      by (rule Cons.IH) simp
    with 2 show ?thesis by (auto split: if_splits)
  next
    case 3
    then have "key x \<le> key (py_max_from key (if key b < key y then y else b) ys)"
      by (intro Cons.IH) simp
    then show ?thesis by simp
  qed
qed

lemma py_max_nonempty:
  assumes "xs \<noteq> []"
  shows "\<exists>w. py_max key xs = Inr w \<and> w \<in> set xs \<and> (\<forall>x \<in> set xs. key x \<le> key w)"
proof -
  from assms obtain b rest where xs: "xs = b # rest" by (cases xs) auto
  have "py_max key xs = Inr (py_max_from key b rest)" by (simp add: py_max_def xs)
  moreover have "py_max_from key b rest \<in> set xs" using py_max_from_mem [of key b rest] by (simp add: xs)
  moreover have "\<forall>x \<in> set xs. key x \<le> key (py_max_from key b rest)"
    using py_max_from_ge [of _ b rest key] by (simp add: xs)
  ultimately show ?thesis by blast
qed

lemma remove1_filter: "distinct xs \<Longrightarrow> remove1 p xs = filter (\<lambda>q. q \<noteq> p) xs"
proof (induction xs)
  case Nil
  then show ?case by simp
next
  case (Cons x xs)
  show ?case
  proof (cases "x = p")
    case True
    with Cons.prems have "p \<notin> set xs" by simp
    then have "filter (\<lambda>q. q \<noteq> p) xs = xs" by (induction xs) auto
    with True show ?thesis by simp
  next
    case False
    with Cons show ?thesis by simp
  qed
qed

lemma side_of_wf: "2 \<le> length i \<Longrightarrow> side_of i = Inr (i ! 1)"
  by (simp add: side_of_def)

lemma capture_loop_result:
  assumes "distinct ps" and "distinct pcs" and "set ps \<subseteq> set pcs"
    and "\<forall>p \<in> set ps. 2 \<le> length (pid (h p))" and "2 \<le> length (pid (h w))"
  shows "capture_loop h w ps acc pcs =
           Inr (acc @ filter (capturable_by h w) ps,
                filter (\<lambda>q. q \<notin> set (filter (capturable_by h w) ps)) pcs)"
  using assms
proof (induction ps arbitrary: acc pcs)
  case Nil
  then show ?case by simp
next
  case (Cons p ps)
  have sp: "side_of (pid (h p)) = Inr (pid (h p) ! 1)" using Cons.prems by (simp add: side_of_wf)
  have sw: "side_of (pid (h w)) = Inr (pid (h w) ! 1)" using Cons.prems by (simp add: side_of_wf)
  have dps: "distinct ps" and pnot: "p \<notin> set ps" using Cons.prems by simp_all
  have wfps: "\<forall>q \<in> set ps. 2 \<le> length (pid (h q))" using Cons.prems by simp
  show ?case
  proof (cases "capturable_by h w p")
    case True
    have pin: "p \<in> set pcs" using Cons.prems by simp
    have d': "distinct (remove1 p pcs)" using Cons.prems by simp
    have sub': "set ps \<subseteq> set (remove1 p pcs)" using Cons.prems pnot by auto
    have rm: "remove1 p pcs = filter (\<lambda>q. q \<noteq> p) pcs"
      using Cons.prems(2) by (rule remove1_filter)
    have "capture_loop h w (p # ps) acc pcs = capture_loop h w ps (acc @ [p]) (remove1 p pcs)"
      using True pin by (simp add: capturable_by_def passing_through_iff sp sw)
    also have "\<dots> = Inr ((acc @ [p]) @ filter (capturable_by h w) ps,
                filter (\<lambda>q. q \<notin> set (filter (capturable_by h w) ps)) (remove1 p pcs))"
      using Cons.IH [OF dps d' sub' wfps Cons.prems(5)] .
    also have "\<dots> = Inr (acc @ filter (capturable_by h w) (p # ps),
                filter (\<lambda>q. q \<notin> set (filter (capturable_by h w) (p # ps))) pcs)"
      using True by (auto simp: rm intro: filter_cong)
    finally show ?thesis .
  next
    case False
    have sub': "set ps \<subseteq> set pcs" using Cons.prems by simp
    have "capture_loop h w (p # ps) acc pcs = capture_loop h w ps acc pcs"
      using False by (auto simp: capturable_by_def passing_through_iff sp sw)
    also have "\<dots> = Inr (acc @ filter (capturable_by h w) ps,
                filter (\<lambda>q. q \<notin> set (filter (capturable_by h w) ps)) pcs)"
      using Cons.IH [OF dps Cons.prems(2) sub' wfps Cons.prems(5)] .
    finally show ?thesis using False by simp
  qed
qed

lemma is_attacking_not_passing: "is_attacking s \<Longrightarrow> \<not> passing_through s"
  by (auto simp: is_attacking_def passing_through_def split: if_splits)

lemma select_winner_attackers:
  assumes "attacking_pieces h plist \<noteq> []"
  shows "\<exists>w. select_winner h plist = Inr (Some w) \<and> w \<in> set (attacking_pieces h plist) \<and>
             (\<forall>a \<in> set (attacking_pieces h plist).
                 get_start_ms (state (h a)) \<le> get_start_ms (state (h w)))"
proof -
  from py_max_nonempty [OF assms, of "start_key h"] obtain w where
    "py_max (start_key h) (attacking_pieces h plist) = Inr w" "w \<in> set (attacking_pieces h plist)"
    "\<forall>x \<in> set (attacking_pieces h plist). start_key h x \<le> start_key h w" by blast
  then show ?thesis using assms by (auto simp: select_winner_def start_key_def)
qed

lemma select_winner_cases:
  assumes "plist \<noteq> []"
  shows "(select_winner h plist = Inr None \<and> (\<forall>p \<in> set plist. passing_through (state (h p)))) \<or>
         (\<exists>w. select_winner h plist = Inr (Some w) \<and> w \<in> set plist \<and> \<not> passing_through (state (h w)))"
proof (cases "attacking_pieces h plist = []")
  case False
  from select_winner_attackers [OF False] obtain w where
    w: "select_winner h plist = Inr (Some w)" "w \<in> set (attacking_pieces h plist)" by blast
  then have "w \<in> set plist" "is_attacking (state (h w))" by (auto simp: attacking_pieces_def)
  with w show ?thesis using is_attacking_not_passing by blast
next
  case True
  show ?thesis
  proof (cases "filter (\<lambda>p. \<not> passing_through (state (h p))) plist = []")
    case False
    from py_max_nonempty [OF False, of "start_key h"] obtain w where
      w: "py_max (start_key h) (filter (\<lambda>p. \<not> passing_through (state (h p))) plist) = Inr w"
         "w \<in> set (filter (\<lambda>p. \<not> passing_through (state (h p))) plist)" by blast
    have "select_winner h plist = Inr (Some w)"
      using True False w(1) by (simp add: select_winner_def Let_def)
    with w(2) show ?thesis by auto
  next
    case nk: True
    then have all: "\<forall>p \<in> set plist. passing_through (state (h p))"
      by (simp add: filter_empty_conv)
    with assms have "filter (\<lambda>p. passing_through (state (h p))) plist \<noteq> []"
      by (cases plist) auto
    then have "select_winner h plist = Inr None"
      using True nk by (simp add: select_winner_def Let_def)
    with all show ?thesis by blast
  qed
qed

lemma game_publish_fields [simp]:
  "heap (game_publish ev g) = heap g"
  "pieces (game_publish ev g) = pieces g"
  "pos (game_publish ev g) = pos g"
  "piece_by_id (game_publish ev g) = piece_by_id g"
  "promoted_pawns (game_publish ev g) = promoted_pawns g"
  "promoted_queens (game_publish ev g) = promoted_queens g"
  "piece_previous_positions (game_publish ev g) = piece_previous_positions g"
  "should_exit (game_publish ev g) = should_exit g"
  "win_announced (game_publish ev g) = win_announced g"
  "published (game_publish ev g) = published g @ [ev]"
  by (simp_all add: game_publish_def)

lemma publish_captures_fields:
  "heap (publish_captures cell w cs g) = heap g \<and>
   pieces (publish_captures cell w cs g) = pieces g \<and>
   pos (publish_captures cell w cs g) = pos g \<and>
   piece_by_id (publish_captures cell w cs g) = piece_by_id g \<and>
   promoted_pawns (publish_captures cell w cs g) = promoted_pawns g \<and>
   promoted_queens (publish_captures cell w cs g) = promoted_queens g \<and>
   piece_previous_positions (publish_captures cell w cs g) = piece_previous_positions g \<and>
   should_exit (publish_captures cell w cs g) = should_exit g \<and>
   win_announced (publish_captures cell w cs g) = win_announced g"
  by (induction cs arbitrary: g) simp_all

lemma publish_captures_published:
  "published (publish_captures cell w cs g) = published g @ map (capture_event g cell w) cs"
proof (induction cs arbitrary: g)
  case Nil
  then show ?case by simp
next
  case (Cons c cs)
  have "capture_event (game_publish (capture_event g cell w c) g) cell w = capture_event g cell w"
    by (rule ext) (simp add: capture_event_def attacker_prev_pos_def)
  with Cons show ?case by simp
qed

lemma cell_captures_subset: "set (cell_captures g e) \<subseteq> set (snd e)"
  by (auto simp: cell_captures_def split: sum.splits option.splits)

lemma cell_captures_heap: "heap g' = heap g \<Longrightarrow> cell_captures g' e = cell_captures g e"
  by (simp add: cell_captures_def split: sum.splits option.splits)

lemma cell_events_heap:
  assumes "heap g' = heap g" and "piece_previous_positions g' = piece_previous_positions g"
  shows "cell_events g' e = cell_events g e"
proof -
  have "capture_event g' = capture_event g"
    using assms by (intro ext) (simp add: capture_event_def attacker_prev_pos_def)
  then show ?thesis using assms(1) cell_captures_heap [OF assms(1), of e]
    by (simp add: cell_events_def split: sum.splits option.splits)
qed

lemma resolve_cell_unchanged:
  assumes "resolve_cell e g = Inr g'"
  shows "heap g' = heap g \<and> pos g' = pos g \<and> piece_by_id g' = piece_by_id g \<and>
         promoted_pawns g' = promoted_pawns g \<and> promoted_queens g' = promoted_queens g \<and>
         piece_previous_positions g' = piece_previous_positions g \<and>
         should_exit g' = should_exit g \<and> win_announced g' = win_announced g"
proof -
  obtain cell plist where e: "e = (cell, plist)" by (cases e)
  show ?thesis
  proof (cases "length plist < 2")
    case True
    with assms e show ?thesis by (simp add: resolve_cell_def)
  next
    case False
    show ?thesis
    proof (cases "select_winner (heap g) plist")
      case (Inl err)
      with assms e False show ?thesis by (simp add: resolve_cell_def)
    next
      case (Inr wo)
      show ?thesis
      proof (cases wo)
        case None
        with assms e False Inr show ?thesis by (simp add: resolve_cell_def)
      next
        case (Some w)
        show ?thesis
        proof (cases "capture_loop (heap g) w plist [] (pieces g)")
          case (Inl err)
          with assms e False Inr Some show ?thesis by (simp add: resolve_cell_def)
        next
          case r: (Inr res)
          obtain cs pcs where res: "res = (cs, pcs)" by (cases res)
          from assms e False Inr Some r res
          have "g' = publish_captures cell w cs (g\<lparr>pieces := pcs\<rparr>)"
            by (simp add: resolve_cell_def)
          then show ?thesis using publish_captures_fields [of cell w cs "g\<lparr>pieces := pcs\<rparr>"] by simp
        qed
      qed
    qed
  qed
qed

lemma resolve_cell_result:
  assumes "distinct plist" and "distinct (pieces g)" and "set plist \<subseteq> set (pieces g)"
    and "\<forall>p \<in> set plist. 2 \<le> length (pid (heap g p))"
  shows "\<exists>g'. resolve_cell (cell, plist) g = Inr g' \<and>
           pieces g' = filter (\<lambda>q. q \<notin> set (cell_captures g (cell, plist))) (pieces g) \<and>
           published g' = published g @ cell_events g (cell, plist)"
proof (cases "length plist < 2")
  case True
  then have "cell_captures g (cell, plist) = []" by (simp add: cell_captures_def)
  moreover from this have "cell_events g (cell, plist) = []"
    by (simp add: cell_events_def split: sum.splits option.splits)
  ultimately show ?thesis using True by (simp add: resolve_cell_def)
next
  case False
  then have ne: "plist \<noteq> []" by auto
  from select_winner_cases [OF ne, of "heap g"] show ?thesis
  proof
    assume "select_winner (heap g) plist = Inr None \<and> (\<forall>p\<in>set plist. passing_through (state (heap g p)))"
    then have n: "select_winner (heap g) plist = Inr None" by simp
    then have "cell_captures g (cell, plist) = []" "cell_events g (cell, plist) = []"
      by (simp_all add: cell_captures_def cell_events_def)
    then show ?thesis using False n by (simp add: resolve_cell_def)
  next
    assume "\<exists>w. select_winner (heap g) plist = Inr (Some w) \<and> w \<in> set plist \<and>
                \<not> passing_through (state (heap g w))"
    then obtain w where w: "select_winner (heap g) plist = Inr (Some w)" "w \<in> set plist" by blast
    with assms(4) have wfw: "2 \<le> length (pid (heap g w))" by simp
    have cl: "capture_loop (heap g) w plist [] (pieces g) =
            Inr ([] @ filter (capturable_by (heap g) w) plist,
                 filter (\<lambda>q. q \<notin> set (filter (capturable_by (heap g) w) plist)) (pieces g))"
      by (rule capture_loop_result [OF assms(1) assms(2) assms(3) assms(4) wfw])
    have cc: "cell_captures g (cell, plist) = filter (capturable_by (heap g) w) plist"
      using False w(1) by (simp add: cell_captures_def)
    have ce: "cell_events g (cell, plist) =
                map (capture_event g cell w) (filter (capturable_by (heap g) w) plist)"
      using w(1) cc by (simp add: cell_events_def)
    let ?g1 = "g\<lparr>pieces := filter (\<lambda>q. q \<notin> set (filter (capturable_by (heap g) w) plist)) (pieces g)\<rparr>"
    have r: "resolve_cell (cell, plist) g =
             Inr (publish_captures cell w (filter (capturable_by (heap g) w) plist) ?g1)"
      using False w(1) cl by (simp add: resolve_cell_def)
    have ev: "capture_event ?g1 cell w = capture_event g cell w"
      by (rule ext) (simp add: capture_event_def attacker_prev_pos_def)
    show ?thesis
      using r cc ce ev publish_captures_fields [of cell w "filter (capturable_by (heap g) w) plist" ?g1]
        publish_captures_published [of cell w "filter (capturable_by (heap g) w) plist" ?g1]
      by simp
  qed
qed

lemma resolve_cells_result:
  assumes "distinct (concat (map snd entries))" and "distinct (pieces g)"
    and "set (concat (map snd entries)) \<subseteq> set (pieces g)"
    and "\<forall>p \<in> set (pieces g). 2 \<le> length (pid (heap g p))"
  shows "\<exists>g'. resolve_cells entries g = Inr g' \<and> heap g' = heap g \<and> pos g' = pos g \<and>
           piece_by_id g' = piece_by_id g \<and>
           promoted_pawns g' = promoted_pawns g \<and> promoted_queens g' = promoted_queens g \<and>
           piece_previous_positions g' = piece_previous_positions g \<and>
           should_exit g' = should_exit g \<and> win_announced g' = win_announced g \<and>
           pieces g' = filter (\<lambda>q. \<forall>e \<in> set entries. q \<notin> set (cell_captures g e)) (pieces g) \<and>
           published g' = published g @ concat (map (cell_events g) entries)"
  using assms
proof (induction entries arbitrary: g)
  case Nil
  then show ?case by simp
next
  case (Cons e es)
  obtain cell plist where e: "e = (cell, plist)" by (cases e)
  have d1: "distinct plist" and d2: "distinct (concat (map snd es))"
    and disj: "set plist \<inter> set (concat (map snd es)) = {}"
    using Cons.prems(1) e by auto
  have sub1: "set plist \<subseteq> set (pieces g)" using Cons.prems(3) e by simp
  have wf1: "\<forall>p \<in> set plist. 2 \<le> length (pid (heap g p))" using Cons.prems(4) sub1 by blast
  from resolve_cell_result [OF d1 Cons.prems(2) sub1 wf1, of cell] obtain g1 where
    g1: "resolve_cell (cell, plist) g = Inr g1"
        "pieces g1 = filter (\<lambda>q. q \<notin> set (cell_captures g (cell, plist))) (pieces g)"
        "published g1 = published g @ cell_events g (cell, plist)" by blast
  note u1 = resolve_cell_unchanged [OF g1(1)]
  have h1: "heap g1 = heap g" and pp1: "piece_previous_positions g1 = piece_previous_positions g"
    using u1 by simp_all
  have dg1: "distinct (pieces g1)" using g1(2) Cons.prems(2) by simp
  have cs: "set (cell_captures g (cell, plist)) \<subseteq> set plist"
    using cell_captures_subset [of g "(cell, plist)"] by simp
  have sub2: "set (concat (map snd es)) \<subseteq> set (pieces g1)"
  proof
    fix q assume q: "q \<in> set (concat (map snd es))"
    then have "q \<in> set (pieces g)" using Cons.prems(3) by auto
    moreover have "q \<notin> set plist" using q disj by blast
    ultimately show "q \<in> set (pieces g1)" using g1(2) cs by auto
  qed
  have wf2: "\<forall>p \<in> set (pieces g1). 2 \<le> length (pid (heap g1 p))"
    using Cons.prems(4) g1(2) h1 by simp
  from Cons.IH [OF d2 dg1 sub2 wf2] obtain g' where
    g': "resolve_cells es g1 = Inr g'" "heap g' = heap g1" "pos g' = pos g1"
        "piece_by_id g' = piece_by_id g1"
        "promoted_pawns g' = promoted_pawns g1" "promoted_queens g' = promoted_queens g1"
        "piece_previous_positions g' = piece_previous_positions g1"
        "should_exit g' = should_exit g1" "win_announced g' = win_announced g1"
        "pieces g' = filter (\<lambda>q. \<forall>e \<in> set es. q \<notin> set (cell_captures g1 e)) (pieces g1)"
        "published g' = published g1 @ concat (map (cell_events g1) es)" by blast
  have cc: "cell_captures g1 = cell_captures g"
    by (rule ext) (rule cell_captures_heap [OF h1])
  have ce: "cell_events g1 = cell_events g"
    by (rule ext) (rule cell_events_heap [OF h1 pp1])
  have res: "resolve_cells (e # es) g = Inr g'" using g1(1) g'(1) e by simp
  have pcs: "pieces g' = filter (\<lambda>q. \<forall>e' \<in> set (e # es). q \<notin> set (cell_captures g e')) (pieces g)"
    using g'(10) g1(2) e by (auto simp: cc intro: filter_cong)
  have pub: "published g' = published g @ concat (map (cell_events g) (e # es))"
    using g'(11) g1(3) e by (simp add: ce)
  show ?case using res pcs pub g' u1 by simp
qed

lemma pos_append_keys: "distinct (map fst m) \<Longrightarrow> distinct (map fst (pos_append c p m))"
  by (simp add: pos_append_def distinct_update)

lemma pos_append_map_of:
  "map_of (pos_append c p m) = (map_of m)(c \<mapsto> (case map_of m c of None \<Rightarrow> [] | Some ps \<Rightarrow> ps) @ [p])"
  by (simp add: pos_append_def update_conv')

lemma occupants_simps:
  "occupants [] = []" "occupants ((k, l) # m) = l @ occupants m"
  by (simp_all add: occupants_def)

lemma pos_append_set:
  "set (occupants (pos_append c p m)) = insert p (set (occupants m))"
proof (induction m)
  case Nil
  then show ?case by (simp add: pos_append_def occupants_simps)
next
  case (Cons kl m)
  obtain k l where kl: "kl = (k, l)" by (cases kl)
  show ?case
  proof (cases "k = c")
    case True
    with kl show ?thesis by (auto simp: pos_append_def occupants_simps)
  next
    case False
    have eq: "pos_append c p ((k, l) # m) = (k, l) # pos_append c p m"
      using False by (simp add: pos_append_def)
    show ?thesis unfolding kl using Cons.IH by (simp add: eq occupants_simps)
  qed
qed

lemma pos_append_distinct:
  "distinct (occupants m) \<Longrightarrow> p \<notin> set (occupants m) \<Longrightarrow>
   distinct (occupants (pos_append c p m))"
proof (induction m)
  case Nil
  then show ?case by (simp add: pos_append_def occupants_simps)
next
  case (Cons kl m)
  obtain k l where kl: "kl = (k, l)" by (cases kl)
  show ?case
  proof (cases "k = c")
    case True
    with Cons.prems kl show ?thesis by (auto simp: pos_append_def occupants_simps)
  next
    case False
    have eq: "pos_append c p ((k, l) # m) = (k, l) # pos_append c p m"
      using False by (simp add: pos_append_def)
    have "distinct (occupants (pos_append c p m))"
      using Cons.IH Cons.prems kl by (simp add: occupants_simps)
    moreover have "set l \<inter> set (occupants (pos_append c p m)) = {}"
      using Cons.prems kl by (auto simp: pos_append_set occupants_simps)
    moreover have "distinct l" using Cons.prems kl by (simp add: occupants_simps)
    ultimately show ?thesis unfolding kl by (simp add: eq occupants_simps)
  qed
qed

lemma build_pos_snoc:
  "build_pos h (ps @ [p]) = pos_append (current_cell (state (h p))) p (build_pos h ps)"
  by (simp add: build_pos_def)

lemma build_pos_Nil: "build_pos h [] = []"
  by (simp add: build_pos_def)

lemma build_pos_set: "set (occupants (build_pos h ps)) = set ps"
  by (induction ps rule: rev_induct)
     (simp_all add: build_pos_Nil build_pos_snoc pos_append_set occupants_simps)

lemma build_pos_distinct: "distinct ps \<Longrightarrow> distinct (occupants (build_pos h ps))"
proof (induction ps rule: rev_induct)
  case Nil
  then show ?case by (simp add: build_pos_Nil occupants_simps)
next
  case (snoc p ps)
  then show ?case by (simp add: build_pos_snoc pos_append_distinct build_pos_set)
qed

lemma build_pos_keys: "distinct (map fst (build_pos h ps))"
  by (induction ps rule: rev_induct) (simp_all add: build_pos_Nil build_pos_snoc pos_append_keys)

lemma build_pos_map_of:
  "map_of (build_pos h ps) c =
     (if filter (\<lambda>p. current_cell (state (h p)) = c) ps = [] then None
      else Some (filter (\<lambda>p. current_cell (state (h p)) = c) ps))"
  by (induction ps rule: rev_induct) (auto simp: build_pos_Nil build_pos_snoc pos_append_map_of)

lemma build_pos_entry:
  assumes "(c, l) \<in> set (build_pos h ps)"
  shows "l = filter (\<lambda>p. current_cell (state (h p)) = c) ps \<and> l \<noteq> []"
proof -
  from assms have "map_of (build_pos h ps) c = Some l" by (simp add: build_pos_keys)
  then show ?thesis by (auto simp: build_pos_map_of split: if_splits)
qed


lemma resolve_collisions_result:
  assumes "distinct (pieces g)" and "\<forall>p \<in> set (pieces g). 2 \<le> length (pid (heap g p))"
  shows "\<exists>g'. resolve_collisions g = Inr g' \<and> heap g' = heap g \<and>
           pos g' = build_pos (heap g) (pieces g) \<and>
           piece_by_id g' = piece_by_id g \<and>
           promoted_pawns g' = promoted_pawns g \<and> promoted_queens g' = promoted_queens g \<and>
           piece_previous_positions g' = piece_previous_positions g \<and>
           should_exit g' = should_exit g \<and> win_announced g' = win_announced g \<and>
           pieces g' = filter (\<lambda>q. \<forall>e \<in> set (build_pos (heap g) (pieces g)). q \<notin> set (cell_captures g e))
                         (pieces g) \<and>
           published g' = published g @ concat (map (cell_events g) (build_pos (heap g) (pieces g)))"
proof -
  let ?g1 = "update_cell2piece_map g"
  let ?es = "build_pos (heap g) (pieces g)"
  have f: "heap ?g1 = heap g" "pieces ?g1 = pieces g" "pos ?g1 = ?es"
    "piece_previous_positions ?g1 = piece_previous_positions g"
    "piece_by_id ?g1 = piece_by_id g" "promoted_pawns ?g1 = promoted_pawns g"
    "promoted_queens ?g1 = promoted_queens g" "should_exit ?g1 = should_exit g"
    "win_announced ?g1 = win_announced g" "published ?g1 = published g"
    by (simp_all add: update_cell2piece_map_def)
  have a1: "distinct (concat (map snd ?es))"
    using build_pos_distinct [OF assms(1), of "heap g"] by (simp only: occupants_def)
  have a2: "distinct (pieces ?g1)" using assms(1) f by simp
  have "set (concat (map snd ?es)) = set (pieces g)"
    using build_pos_set [of "heap g" "pieces g"] by (simp only: occupants_def)
  then have a3: "set (concat (map snd ?es)) \<subseteq> set (pieces ?g1)" using f(2) by simp
  have a4: "\<forall>p \<in> set (pieces ?g1). 2 \<le> length (pid (heap ?g1 p))" using assms(2) f by simp
  from resolve_cells_result [OF a1 a2 a3 a4] obtain g' where
    g': "resolve_cells ?es ?g1 = Inr g'" "heap g' = heap ?g1" "pos g' = pos ?g1"
        "piece_by_id g' = piece_by_id ?g1"
        "promoted_pawns g' = promoted_pawns ?g1" "promoted_queens g' = promoted_queens ?g1"
        "piece_previous_positions g' = piece_previous_positions ?g1"
        "should_exit g' = should_exit ?g1" "win_announced g' = win_announced ?g1"
        "pieces g' = filter (\<lambda>q. \<forall>e \<in> set ?es. q \<notin> set (cell_captures ?g1 e)) (pieces ?g1)"
        "published g' = published ?g1 @ concat (map (cell_events ?g1) ?es)" by blast
  have cc: "cell_captures ?g1 = cell_captures g"
    by (rule ext) (rule cell_captures_heap [OF f(1)])
  have ce: "cell_events ?g1 = cell_events g"
    by (rule ext) (rule cell_events_heap [OF f(1) f(4)])
  have "resolve_collisions g = Inr g'" using g'(1) f(3) by (simp add: resolve_collisions_def Let_def)
  then show ?thesis using g' f by (simp add: cc ce)
qed












lemma before_clash_fields:
  "heap before_clash 0 = mk_piece ''KW1'' (resting (7, 4))"
  "heap before_clash (Suc 0) = mk_piece ''KB1'' (resting (0, 4))"
  "heap before_clash 2 = mk_piece ''PW2'' (arriving (4, 4) 100)"
  "heap before_clash 3 = mk_piece ''PB2'' (resting (3, 4))"
  "pieces before_clash = [0, 1, 2, 3]"
  "published before_clash = []"
  "promoted_pawns before_clash = {}"
  "piece_previous_positions before_clash = [(''PW2'', (5, 4))]"
  "map_of (piece_by_id before_clash) ''PB2'' = Some 3"
  by (simp_all add: before_clash_def board_def index_by_id_def heap_of_def mk_piece_def)



lemma clash_heap:
  "heap clash 0 = mk_piece ''KW1'' (resting (7, 4))"
  "heap clash (Suc 0) = mk_piece ''KB1'' (resting (0, 4))"
  "heap clash 2 = mk_piece ''PW2'' (arriving (4, 4) 100)"
  "heap clash 3 = mk_piece ''PB2'' (arriving (4, 4) 200)"
  "pieces clash = [0, 1, 2, 3]"
  "published clash =
     [moved_event ''PB2'' (3, 4) (4, 4) ''move'', turn_event ''black'' ''PB2'']"
  by (simp_all add: clash_def before_clash_fields)

lemma clash_pos:
  "build_pos (heap clash) (pieces clash) = [((7, 4), [0]), ((0, 4), [1]), ((4, 4), [2, 3])]"
  by (simp add: build_pos_def pos_append_def clash_heap mk_piece_def resting_def arriving_def)


subsection \<open>Knights passing through and landing\<close>

lemma select_winner_latest:
  assumes "k \<in> set plist" and "attacker (state (h k))"
    and "\<forall>a \<in> set (attackers h plist). a \<noteq> k \<longrightarrow>
            get_start_ms (state (h a)) < get_start_ms (state (h k))"
  shows "select_winner h plist = Inr (Some k)"
proof -
  have kin: "k \<in> set (attackers h plist)" using assms(1,2) by (simp add: attackers_def)
  then have ne: "attacking_pieces h plist \<noteq> []" by (auto simp: attacking_pieces_attackers)
  from select_winner_attackers [OF ne, unfolded attacking_pieces_attackers] obtain w where
    w: "select_winner h plist = Inr (Some w)" "w \<in> set (attackers h plist)"
       "\<forall>a \<in> set (attackers h plist). get_start_ms (state (h a)) \<le> get_start_ms (state (h w))"
    by blast
  have "w = k"
  proof (rule ccontr)
    assume "w \<noteq> k"
    with assms(3) w(2) have "get_start_ms (state (h w)) < get_start_ms (state (h k))" by blast
    moreover from w(3) kin have "get_start_ms (state (h k)) \<le> get_start_ms (state (h w))" by blast
    ultimately show False by simp
  qed
  with w(1) show ?thesis by simp
qed

lemma passing_not_winner:
  "pass_through_knight (state (h k)) \<Longrightarrow> plist \<noteq> [] \<Longrightarrow> select_winner h plist \<noteq> Inr (Some k)"
  using select_winner_cases [of plist h, unfolded passing_through_iff] by auto

lemma passing_not_captured:
  "pass_through_knight (state (heap g k)) \<Longrightarrow> k \<notin> set (cell_captures g e)"
  by (auto simp: cell_captures_def capturable_by_def split: sum.splits option.splits)

lemma lone_occupant_no_events:
  assumes "\<forall>p \<in> set plist. p \<noteq> x \<longrightarrow> pass_through_knight (state (heap g p))"
  shows "cell_events g (cell, plist) = []"
proof (cases "plist = []")
  case True
  then show ?thesis by (simp add: cell_events_def cell_captures_def split: sum.splits option.splits)
next
  case False
  from select_winner_cases [OF False, of "heap g", unfolded passing_through_iff] show ?thesis
  proof
    assume "select_winner (heap g) plist = Inr None \<and> (\<forall>p\<in>set plist. pass_through_knight (state (heap g p)))"
    then show ?thesis by (simp add: cell_events_def)
  next
    assume "\<exists>w. select_winner (heap g) plist = Inr (Some w) \<and> w \<in> set plist \<and>
                \<not> pass_through_knight (state (heap g w))"
    then obtain w where w: "select_winner (heap g) plist = Inr (Some w)" "w \<in> set plist"
      "\<not> pass_through_knight (state (heap g w))" by blast
    with assms have wx: "w = x" by blast
    have "filter (capturable_by (heap g) w) plist = []"
      using assms wx by (auto simp: filter_empty_conv capturable_by_def)
    then show ?thesis using w(1) by (simp add: cell_events_def cell_captures_def)
  qed
qed

lemma all_passing_no_winner:
  assumes "plist \<noteq> []" and "\<forall>p \<in> set plist. pass_through_knight (state (h p))"
  shows "select_winner h plist = Inr None"
  using select_winner_cases [OF assms(1), of h, unfolded passing_through_iff] assms(2) by auto

text \<open>
  Claim C2, as amended.  In every cell of the occupancy index a knight that passes through (its
  physics is a knight jump that reports that it cannot capture at its current position) is not
  the winner and stays live; a cell in which all occupants but at most one pass through
  publishes no event; a cell in which all occupants pass through has no winner.  A piece in a
  knight jump that is an attacker of its cell (so that it is at its landing cell), whose start
  timestamp is greater than that of every other attacker of the cell, and for which exactly one
  occupant of the cell is capturable, captures that occupant, and exactly one
  \<^verbatim>\<open>PIECE_CAPTURED\<close> event is published for the cell.
\<close>

theorem knight_pass_through_and_landing:
  assumes "distinct (pieces g)"
    and "\<forall>p \<in> set (pieces g). 2 \<le> length (pid (heap g p))"
  shows "\<exists>g'. resolve_collisions g = Inr g' \<and>
           published g' =
             published g @ concat (map (cell_events g) (build_pos (heap g) (pieces g))) \<and>
           (\<forall>cell plist. (cell, plist) \<in> set (build_pos (heap g) (pieces g)) \<longrightarrow>
              (\<forall>k \<in> set plist. pass_through_knight (state (heap g k)) \<longrightarrow>
                  select_winner (heap g) plist \<noteq> Inr (Some k) \<and> k \<in> set (pieces g')) \<and>
              (\<forall>x. (\<forall>p \<in> set plist. p \<noteq> x \<longrightarrow> pass_through_knight (state (heap g p))) \<longrightarrow>
                  cell_events g (cell, plist) = []) \<and>
              ((\<forall>p \<in> set plist. pass_through_knight (state (heap g p))) \<longrightarrow>
                  select_winner (heap g) plist = Inr None) \<and>
              (\<forall>k x. k \<in> set plist \<and> is_KnightJumpPhysics (state (heap g k)) \<and>
                     attacker (state (heap g k)) \<and>
                     (\<forall>a \<in> set (attackers (heap g) plist). a \<noteq> k \<longrightarrow>
                         get_start_ms (state (heap g a)) < get_start_ms (state (heap g k))) \<and>
                     filter (capturable_by (heap g) k) plist = [x] \<longrightarrow>
                  x \<notin> set (pieces g') \<and>
                  cell_events g (cell, plist) =
                    [Event PIECE_CAPTURED
                       [(''piece_type'', PStr (pid (heap g x))),
                        (''captured_by'', PStr (pid (heap g k))),
                        (''from_position'', PPair (attacker_prev_pos g (pid (heap g k)))),
                        (''position'', PPair cell)]]))"
proof -
  let ?es = "build_pos (heap g) (pieces g)"
  from resolve_collisions_result [OF assms] obtain g' where
    r: "resolve_collisions g = Inr g'"
    and pcs: "pieces g' = filter (\<lambda>q. \<forall>e \<in> set ?es. q \<notin> set (cell_captures g e)) (pieces g)"
    and pub: "published g' = published g @ concat (map (cell_events g) ?es)"
    by blast
  have cellwise:
    "(\<forall>k \<in> set plist. pass_through_knight (state (heap g k)) \<longrightarrow>
                  select_winner (heap g) plist \<noteq> Inr (Some k) \<and> k \<in> set (pieces g')) \<and>
              (\<forall>x. (\<forall>p \<in> set plist. p \<noteq> x \<longrightarrow> pass_through_knight (state (heap g p))) \<longrightarrow>
                  cell_events g (cell, plist) = []) \<and>
              ((\<forall>p \<in> set plist. pass_through_knight (state (heap g p))) \<longrightarrow>
                  select_winner (heap g) plist = Inr None) \<and>
              (\<forall>k x. k \<in> set plist \<and> is_KnightJumpPhysics (state (heap g k)) \<and>
                     attacker (state (heap g k)) \<and>
                     (\<forall>a \<in> set (attackers (heap g) plist). a \<noteq> k \<longrightarrow>
                         get_start_ms (state (heap g a)) < get_start_ms (state (heap g k))) \<and>
                     filter (capturable_by (heap g) k) plist = [x] \<longrightarrow>
                  x \<notin> set (pieces g') \<and>
                  cell_events g (cell, plist) =
                    [Event PIECE_CAPTURED
                       [(''piece_type'', PStr (pid (heap g x))),
                        (''captured_by'', PStr (pid (heap g k))),
                        (''from_position'', PPair (attacker_prev_pos g (pid (heap g k)))),
                        (''position'', PPair cell)]])"
    if mem: "(cell, plist) \<in> set ?es" for cell plist
  proof -
    have ne: "plist \<noteq> []" and pl: "plist = filter (\<lambda>p. current_cell (state (heap g p)) = cell) (pieces g)"
      using build_pos_entry [OF mem] by blast+
    have p1: "select_winner (heap g) plist \<noteq> Inr (Some k) \<and> k \<in> set (pieces g')"
      if k: "k \<in> set plist" "pass_through_knight (state (heap g k))" for k
    proof
      show "select_winner (heap g) plist \<noteq> Inr (Some k)" using k(2) ne by (rule passing_not_winner)
      have "k \<in> set (pieces g)" using k(1) pl by auto
      then show "k \<in> set (pieces g')" using passing_not_captured [OF k(2)] by (simp add: pcs)
    qed
    have p2: "cell_events g (cell, plist) = []"
      if "\<forall>p \<in> set plist. p \<noteq> x \<longrightarrow> pass_through_knight (state (heap g p))" for x
      using that by (rule lone_occupant_no_events)
    have p3: "select_winner (heap g) plist = Inr None"
      if "\<forall>p \<in> set plist. pass_through_knight (state (heap g p))"
      using that by (rule all_passing_no_winner [OF ne])
    have p4: "x \<notin> set (pieces g') \<and>
                  cell_events g (cell, plist) =
                    [Event PIECE_CAPTURED
                       [(''piece_type'', PStr (pid (heap g x))),
                        (''captured_by'', PStr (pid (heap g k))),
                        (''from_position'', PPair (attacker_prev_pos g (pid (heap g k)))),
                        (''position'', PPair cell)]]"
      if a: "k \<in> set plist \<and> is_KnightJumpPhysics (state (heap g k)) \<and>
                     attacker (state (heap g k)) \<and>
                     (\<forall>a \<in> set (attackers (heap g) plist). a \<noteq> k \<longrightarrow>
                         get_start_ms (state (heap g a)) < get_start_ms (state (heap g k))) \<and>
                     filter (capturable_by (heap g) k) plist = [x]" for k x
    proof -
      from a have sw: "select_winner (heap g) plist = Inr (Some k)"
        by (intro select_winner_latest) simp_all
      from a have f: "filter (capturable_by (heap g) k) plist = [x]" by simp
      then have "x \<in> set (filter (capturable_by (heap g) k) plist)" by simp
      then have xin: "x \<in> set plist" and xk: "x \<noteq> k" by (auto simp: capturable_by_def)
      have dp: "distinct plist" using pl assms(1) by simp
      have "card {x, k} \<le> card (set plist)" using a xin by (intro card_mono) auto
      then have len: "\<not> length plist < 2" using xk dp by (simp add: distinct_card)
      have cc: "cell_captures g (cell, plist) = [x]" using len sw f by (simp add: cell_captures_def)
      have ev: "cell_events g (cell, plist) =
                    [Event PIECE_CAPTURED
                       [(''piece_type'', PStr (pid (heap g x))),
                        (''captured_by'', PStr (pid (heap g k))),
                        (''from_position'', PPair (attacker_prev_pos g (pid (heap g k)))),
                        (''position'', PPair cell)]]"
        using sw cc by (simp add: cell_events_def capture_event_def)
      have "x \<in> set (cell_captures g (cell, plist))" using cc by simp
      then have "x \<notin> set (pieces g')" using mem by (auto simp: pcs)
      with ev show ?thesis by simp
    qed
    from p1 p2 p3 p4 show ?thesis by blast
  qed
  show ?thesis
    apply (rule exI [of _ g'])
    apply (rule conjI, rule r)
    apply (rule conjI, rule pub)
    apply (intro allI impI)
    apply (rule cellwise)
    apply assumption
    done
qed

lemma flyover_pos:
  "build_pos (heap flyover) (pieces flyover) = [((7, 4), [0]), ((0, 4), [1]), ((4, 4), [2, 3])]"
  by (simp add: build_pos_def pos_append_def flyover_def board_def heap_of_def mk_piece_def
      resting_def arriving_def landed_knight_def jumping_knight_def)

theorem knight_pass_through_and_landing_witness:
  "distinct (pieces flyover) \<and> list_all (\<lambda>p. 2 \<le> length (pid (heap flyover p))) (pieces flyover) \<and>
   pass_through_knight (state (heap flyover 2)) \<and>
   select_winner (heap flyover) [2, 3] \<noteq> Inr (Some 2) \<and>
   (\<exists>g'. resolve_collisions flyover = Inr g' \<and> 2 \<in> set (pieces g') \<and> published g' = [])"
proof -
  have d: "distinct (pieces flyover)" by (simp add: flyover_def board_def)
  have wf: "\<forall>p \<in> set (pieces flyover). 2 \<le> length (pid (heap flyover p))"
    by (simp add: flyover_def board_def heap_of_def mk_piece_def)
  have pt: "pass_through_knight (state (heap flyover 2))"
    by (simp add: pass_through_knight_def flyover_def board_def heap_of_def mk_piece_def
        resting_def arriving_def landed_knight_def jumping_knight_def)
  have np: "\<not> pass_through_knight (state (heap flyover 3))"
    by (simp add: pass_through_knight_def flyover_def board_def heap_of_def mk_piece_def
        resting_def arriving_def landed_knight_def jumping_knight_def)
  from knight_pass_through_and_landing [OF d wf] obtain g' where
    r: "resolve_collisions flyover = Inr g'"
    and pub: "published g' =
                published flyover @ concat (map (cell_events flyover) (build_pos (heap flyover) (pieces flyover)))"
    and cw: "\<forall>cell plist. (cell, plist) \<in> set (build_pos (heap flyover) (pieces flyover)) \<longrightarrow>
              (\<forall>k \<in> set plist. pass_through_knight (state (heap flyover k)) \<longrightarrow>
                  select_winner (heap flyover) plist \<noteq> Inr (Some k) \<and> k \<in> set (pieces g')) \<and>
              (\<forall>x. (\<forall>p \<in> set plist. p \<noteq> x \<longrightarrow> pass_through_knight (state (heap flyover p))) \<longrightarrow>
                  cell_events flyover (cell, plist) = [])"
    by blast
  have m1: "((7, 4), [0]) \<in> set (build_pos (heap flyover) (pieces flyover))"
    and m2: "((0, 4), [1]) \<in> set (build_pos (heap flyover) (pieces flyover))"
    and m3: "((4, 4), [2, 3]) \<in> set (build_pos (heap flyover) (pieces flyover))"
    by (simp_all add: flyover_pos)
  from cw m3 pt have k: "select_winner (heap flyover) [2, 3] \<noteq> Inr (Some 2) \<and> 2 \<in> set (pieces g')"
    by fastforce
  have e3: "cell_events flyover ((4, 4), [2, 3]) = []"
    using cw [rule_format, OF m3, THEN conjunct2, rule_format, of 3] pt by simp
  have e1: "cell_events flyover ((7, 4), [0]) = []"
    using cw [rule_format, OF m1, THEN conjunct2, rule_format, of 0] by simp
  have e2: "cell_events flyover ((0, 4), [1]) = []"
    using cw [rule_format, OF m2, THEN conjunct2, rule_format, of 1] by simp
  have "published g' =
          published flyover @
          concat (map (cell_events flyover) [((7, 4), [0]), ((0, 4), [1]), ((4, 4), [2, 3])])"
    using pub by (simp only: flyover_pos)
  then have ev: "published g' = []" using e1 e2 e3 by (simp add: flyover_def board_def)
  have wf': "list_all (\<lambda>p. 2 \<le> length (pid (heap flyover p))) (pieces flyover)"
    using wf by (simp add: list_all_iff)
  from d wf' pt k r ev show ?thesis by blast
qed

lemma late_arrival_pos:
  "build_pos (heap late_arrival) (pieces late_arrival) = [((7, 4), [0]), ((0, 4), [1]), ((4, 4), [2, 3])]"
  by (simp add: build_pos_def pos_append_def late_arrival_def board_def heap_of_def mk_piece_def
      resting_def arriving_def landed_knight_def)

text \<open>
  The last part of the claim fails without the condition that the knight wins the cell: in
  \<open>late_arrival\<close> the knight is at its landing cell with exactly one capturable enemy, the enemy
  started its move later and wins, the knight's state does not report \<^verbatim>\<open>can_be_captured()\<close>, and
  no event is published.
\<close>

theorem landed_knight_counterexample:
  "is_KnightJumpPhysics (state (heap late_arrival 2)) \<and>
   can_capture_at_current_position (state (heap late_arrival 2)) \<and>
   \<not> pass_through_knight (state (heap late_arrival 2)) \<and>
   build_pos (heap late_arrival) (pieces late_arrival) =
     [((7, 4), [0]), ((0, 4), [1]), ((4, 4), [2, 3])] \<and>
   filter (capturable_by (heap late_arrival) 2) [2, 3] = [3] \<and>
   map_sum id published (resolve_collisions late_arrival) = Inr []"
proof -
  have h: "heap late_arrival 0 = mk_piece ''KW1'' (resting (7, 4))"
    "heap late_arrival (Suc 0) = mk_piece ''KB1'' (resting (0, 4))"
    "heap late_arrival 2 = mk_piece ''NW1'' ((landed_knight (4, 4) 100)\<lparr>can_be_captured := False\<rparr>)"
    "heap late_arrival 3 = mk_piece ''PB2'' (arriving (4, 4) 200)"
    "pieces late_arrival = [0, 1, 2, 3]" "published late_arrival = []"
    by (simp_all add: late_arrival_def board_def heap_of_def)
  have a: "is_KnightJumpPhysics (state (heap late_arrival 2))"
    "can_capture_at_current_position (state (heap late_arrival 2))"
    "\<not> pass_through_knight (state (heap late_arrival 2))"
    by (simp_all add: h mk_piece_def landed_knight_def arriving_def resting_def pass_through_knight_def)
  have c: "filter (capturable_by (heap late_arrival) 2) [2, 3] = [3]"
    by (simp add: capturable_by_def h mk_piece_def landed_knight_def arriving_def resting_def
        pass_through_knight_def)
  have sw: "select_winner (heap late_arrival) [2, 3] = Inr (Some 3)"
    by (simp add: select_winner_def attacking_pieces_def is_attacking_def h mk_piece_def
        landed_knight_def resting_def arriving_def py_max_def start_key_def)
  have c1: "resolve_cell ((7, 4), [0]) g = Inr g" "resolve_cell ((0, 4), [Suc 0]) g = Inr g" for g
    by (simp_all add: resolve_cell_def)
  have c3: "resolve_cell ((4, 4), [2, 3]) (update_cell2piece_map late_arrival)
              = Inr (update_cell2piece_map late_arrival)"
    by (simp add: resolve_cell_def update_cell2piece_map_def sw side_of_def h mk_piece_def
        landed_knight_def resting_def arriving_def pass_through_knight_def)
  have "resolve_collisions late_arrival = Inr (update_cell2piece_map late_arrival)"
    by (simp add: resolve_collisions_def Let_def late_arrival_pos c1 c3
        update_cell2piece_map_def [of late_arrival, THEN arg_cong [of _ _ pos]])
  then have "map_sum id published (resolve_collisions late_arrival) = Inr []"
    by (simp add: update_cell2piece_map_def h)
  with a c late_arrival_pos show ?thesis by simp
qed

subsection \<open>Construction\<close>

text \<open>
  Claim C7.  \<^verbatim>\<open>_validate\<close> keeps for a cell the side of the first piece found there, so a
  second black pawn on a cell whose first piece is white is compared with the white piece
  only: the placement \<open>crowded_pieces\<close>, in which the black pawns \<^verbatim>\<open>PB1\<close> and \<^verbatim>\<open>PB2\<close> share a
  cell, is accepted, and the game is constructed.
\<close>

theorem validate_accepts_same_side_overlap:
  "validate crowded_pieces = Inr True \<and>
   Game_init (heap_of crowded_pieces) [0, 1, 2, 3, 4] = Inr (board crowded_pieces [0, 1, 2, 3, 4]) \<and>
   side_of (pid (crowded_pieces ! 3)) = side_of (pid (crowded_pieces ! 4)) \<and>
   current_cell (state (crowded_pieces ! 3)) = current_cell (state (crowded_pieces ! 4))"
proof -
  have v: "validate crowded_pieces = Inr True"
    by (simp add: validate_def crowded_pieces_def mk_piece_def resting_def side_of_def startswith_def)
  have m: "map (heap_of crowded_pieces) [0, 1, 2, 3, 4] = crowded_pieces"
    by (simp add: heap_of_def crowded_pieces_def)
  have g: "Game_init (heap_of crowded_pieces) [0, 1, 2, 3, 4] = Inr (board crowded_pieces [0, 1, 2, 3, 4])"
    unfolding Game_init_def m v by (simp add: board_def)
  have s: "side_of (pid (crowded_pieces ! 3)) = side_of (pid (crowded_pieces ! 4))"
    "current_cell (state (crowded_pieces ! 3)) = current_cell (state (crowded_pieces ! 4))"
    by (simp_all add: crowded_pieces_def mk_piece_def resting_def side_of_def)
  from v g s show ?thesis by simp
qed

subsection \<open>The occupancy index and the lookup by id\<close>

text \<open>
  Claim C4.  Collision resolution leaves the lookup by id as it was: the id of a captured piece
  remains a key of the lookup, while the piece is no longer live and is not in the occupancy
  index once the index is rebuilt from the live pieces.
\<close>

theorem captured_id_stays_in_lookup:
  assumes "distinct (pieces g)"
    and "\<forall>p \<in> set (pieces g). 2 \<le> length (pid (heap g p))"
  shows "\<exists>g'. resolve_collisions g = Inr g' \<and> piece_by_id g' = piece_by_id g \<and>
           set (occupants (pos (update_cell2piece_map g'))) = set (pieces g') \<and>
           (\<forall>cell plist. (cell, plist) \<in> set (build_pos (heap g) (pieces g)) \<longrightarrow>
               (\<forall>p \<in> set (cell_captures g (cell, plist)). p \<notin> set (pieces g')))"
proof -
  let ?es = "build_pos (heap g) (pieces g)"
  from resolve_collisions_result [OF assms] obtain g' where
    r: "resolve_collisions g = Inr g'" and l: "piece_by_id g' = piece_by_id g"
    and pcs: "pieces g' = filter (\<lambda>q. \<forall>e \<in> set ?es. q \<notin> set (cell_captures g e)) (pieces g)"
    by blast
  have o: "set (occupants (pos (update_cell2piece_map g'))) = set (pieces g')"
    by (simp add: update_cell2piece_map_def build_pos_set)
  have c: "\<forall>cell plist. (cell, plist) \<in> set ?es \<longrightarrow>
               (\<forall>p \<in> set (cell_captures g (cell, plist)). p \<notin> set (pieces g'))"
    by (auto simp: pcs)
  from r l o c show ?thesis by blast
qed

theorem captured_id_stays_in_lookup_witness:
  "distinct (pieces clash) \<and> list_all (\<lambda>p. 2 \<le> length (pid (heap clash p))) (pieces clash) \<and>
   (\<exists>g'. resolve_collisions clash = Inr g' \<and> map_of (piece_by_id g') ''PW2'' = Some 2 \<and>
          pid (heap g' 2) = ''PW2'' \<and>
          2 \<notin> set (occupants (pos (update_cell2piece_map g'))))"
proof -
  have d: "distinct (pieces clash)" by (simp add: clash_heap)
  have wf: "\<forall>p \<in> set (pieces clash). 2 \<le> length (pid (heap clash p))"
    by (simp add: clash_heap mk_piece_def)
  from captured_id_stays_in_lookup [OF d wf] obtain g' where
    r: "resolve_collisions clash = Inr g'" and l: "piece_by_id g' = piece_by_id clash"
    and o: "set (occupants (pos (update_cell2piece_map g'))) = set (pieces g')"
    and c: "\<forall>cell plist. (cell, plist) \<in> set (build_pos (heap clash) (pieces clash)) \<longrightarrow>
               (\<forall>p \<in> set (cell_captures clash (cell, plist)). p \<notin> set (pieces g'))"
    by blast
  have mem: "((4, 4), [2, 3]) \<in> set (build_pos (heap clash) (pieces clash))"
    by (simp add: clash_pos)
  have sw: "select_winner (heap clash) [2, 3] = Inr (Some 3)"
    by (simp add: select_winner_def attacking_pieces_def is_attacking_def clash_heap mk_piece_def
        resting_def arriving_def py_max_def start_key_def)
  have cc: "cell_captures clash ((4, 4), [2, 3]) = [2]"
    by (simp add: cell_captures_def sw capturable_by_def pass_through_knight_def clash_heap
        mk_piece_def resting_def arriving_def)
  from c mem cc have dead: "2 \<notin> set (pieces g')" by fastforce
  have h: "heap g' = heap clash"
    using r resolve_cells_result [of "build_pos (heap clash) (pieces clash)" "update_cell2piece_map clash"]
      resolve_collisions_result [OF d wf] by auto
  have k: "map_of (piece_by_id g') ''PW2'' = Some 2"
    by (simp add: l clash_def before_clash_def board_def index_by_id_def heap_of_def mk_piece_def)
  have wf': "list_all (\<lambda>p. 2 \<le> length (pid (heap clash p))) (pieces clash)"
    using wf by (simp add: list_all_iff)
  from d wf' r k dead o h show ?thesis by (auto simp: clash_heap mk_piece_def)
qed


subsection \<open>The end of the game\<close>

lemmas run_defs =
  run_def tick_def reset_pieces_def update_pieces_def update_cell2piece_map_def
  process_input_def check_pawn_promotion_def resolve_collisions_def resolve_cell_def
  select_winner_def attacking_pieces_def is_attacking_def passing_through_def py_max_def
  start_key_def side_of_def capture_event_def attacker_prev_pos_def
  check_post_collision_promotions_def check_and_announce_win_def is_win_def kings_def
  is_king_id_def winner_text_def startswith_def game_publish_def score_tracker_handle_def
  on_piece_captured_def score_captured_id_def on_game_started_def new_score_tracker_def
  get_scores_def PIECE_VALUES_def Event_def moved_event_def turn_event_def
  player_color_of_def is_move_type_def occupancy_def build_pos_def pos_append_def
  teleporting_def endgame_def board_def heap_of_def index_by_id_def mk_piece_def resting_def
  arriving_def move_QB1_def exit_cmd_def Let_def

text \<open>
  Claim C5.  In the run of \<open>endgame\<close> the white king is captured at the first iteration and
  \<^verbatim>\<open>_check_and_announce_win\<close> publishes \<^verbatim>\<open>GAME_ENDED\<close>; the exit command ends the loop at the
  second iteration, and \<^verbatim>\<open>run\<close> publishes \<^verbatim>\<open>GAME_ENDED\<close> again: the event is published twice.
\<close>

theorem game_ended_published_twice:
  "map_sum id published_types
       (run teleporting 0 [(0, [move_QB1]), (16, [exit_cmd])] endgame)
     = Inr [GAME_STARTED, PIECE_MOVED, TURN_CHANGED, PIECE_CAPTURED, GAME_ENDED, GAME_ENDED] \<and>
   map_sum id (count_published GAME_ENDED)
       (run teleporting 0 [(0, [move_QB1]), (16, [exit_cmd])] endgame) = Inr 2"
  by (simp add: run_defs published_types_def count_published_def)

subsection \<open>Promotion\<close>

lemma find_queen_number_props:
  "n \<le> find_queen_number d c n \<and>
   queen_id c (find_queen_number d c n) \<notin> set (map fst d) \<and>
   (\<forall>m. n \<le> m \<and> m < find_queen_number d c n \<longrightarrow> queen_id c m \<in> set (map fst d))"
proof (induction d c n rule: find_queen_number.induct)
  case (1 d c n)
  show ?case
  proof (cases "queen_id c n \<in> set (map fst d)")
    case True
    then have eq: "find_queen_number d c n = find_queen_number d c (Suc n)"
      by (subst find_queen_number.simps) simp
    have ih: "Suc n \<le> find_queen_number d c (Suc n) \<and>
        queen_id c (find_queen_number d c (Suc n)) \<notin> set (map fst d) \<and>
        (\<forall>m. Suc n \<le> m \<and> m < find_queen_number d c (Suc n) \<longrightarrow> queen_id c m \<in> set (map fst d))"
      by (rule 1 [OF True])
    have "\<forall>m. n \<le> m \<and> m < find_queen_number d c (Suc n) \<longrightarrow> queen_id c m \<in> set (map fst d)"
    proof (intro allI impI)
      fix m assume m: "n \<le> m \<and> m < find_queen_number d c (Suc n)"
      show "queen_id c m \<in> set (map fst d)"
      proof (cases "m = n")
        case True
        with \<open>queen_id c n \<in> set (map fst d)\<close> show ?thesis by simp
      next
        case False
        with m have "Suc n \<le> m \<and> m < find_queen_number d c (Suc n)" by simp
        with ih show ?thesis by blast
      qed
    qed
    with ih show ?thesis unfolding eq by simp
  next
    case False
    then have "find_queen_number d c n = n" by (subst find_queen_number.simps) simp
    with False show ?thesis by auto
  qed
qed

lemma queen_id_not_pawn: "startswith i ''P'' \<Longrightarrow> queen_id c n \<noteq> i"
  by (auto simp: startswith_def queen_id_def)

lemma queen_id_no_pawn: "\<not> startswith (queen_id c n) ''P''"
  by (simp add: startswith_def queen_id_def)

lemma enemy_pieces_ok:
  "\<forall>q \<in> set ps. 2 \<le> length (pid (h q)) \<Longrightarrow> \<exists>r. enemy_pieces_at_location h i c ps = Inr r"
proof (induction ps)
  case Nil
  then show ?case by simp
next
  case (Cons q ps)
  then obtain r where r: "enemy_pieces_at_location h i c ps = Inr r" by auto
  from Cons.prems have "side_of (pid (h q)) = Inr (pid (h q) ! 1)" by (simp add: side_of_wf)
  with r show ?case by simp
qed

lemma pos_get_rebuilt: "set (pos_get (update_cell2piece_map g) c) \<subseteq> set (pieces g)"
  by (auto simp: pos_get_def update_cell2piece_map_def build_pos_map_of split: option.splits if_splits)

lemma promote_result:
  assumes "startswith (pid (heap g p)) ''P''" and "2 \<le> length (pid (heap g p))"
    and "pid (heap g p) \<in> set (map fst (piece_by_id g))"
  shows "promote_pawn_to_queen E p g =
     Inr (game_publish
            (promotion_event
               (queen_id (pid (heap g p) ! 1) (find_queen_number (piece_by_id g) (pid (heap g p) ! 1) 1))
               (pid (heap g p))
               (current_cell
                  (case queen_swap E
                          (queen_id (pid (heap g p) ! 1)
                             (find_queen_number (piece_by_id g) (pid (heap g p) ! 1) 1))
                          (state (heap g p)) of
                     None \<Rightarrow> state (heap g p) | Some s \<Rightarrow> s)))
            (g\<lparr>heap := (heap g)
                  (p := \<lparr>pid = queen_id (pid (heap g p) ! 1)
                                  (find_queen_number (piece_by_id g) (pid (heap g p) ! 1) 1),
                         state = (case queen_swap E
                                         (queen_id (pid (heap g p) ! 1)
                                            (find_queen_number (piece_by_id g) (pid (heap g p) ! 1) 1))
                                         (state (heap g p)) of
                                    None \<Rightarrow> state (heap g p) | Some s \<Rightarrow> s)\<rparr>),
                piece_by_id :=
                  AList.update
                    (queen_id (pid (heap g p) ! 1) (find_queen_number (piece_by_id g) (pid (heap g p) ! 1) 1))
                    p (AList.delete (pid (heap g p)) (piece_by_id g)),
                promoted_queens :=
                  insert (queen_id (pid (heap g p) ! 1)
                            (find_queen_number (piece_by_id g) (pid (heap g p) ! 1) 1))
                    (promoted_queens g)\<rparr>))"
  using assms by (simp add: promote_pawn_to_queen_def Let_def side_of_wf)

lemma check_promotes:
  assumes "startswith (pid (heap g p)) ''P''" and "pid (heap g p) \<notin> promoted_pawns g"
    and "2 \<le> length (pid (heap g p))"
    and "\<forall>q \<in> set (pieces g). 2 \<le> length (pid (heap g q))"
    and "(pid (heap g p) ! 1 = CHR ''W'' \<and> fst position = 0) \<or>
         (pid (heap g p) ! 1 = CHR ''B'' \<and> fst position = 7)"
  shows "check_pawn_promotion E p position g =
           promote_pawn_to_queen E p
             ((update_cell2piece_map g)\<lparr>promoted_pawns := insert (pid (heap g p)) (promoted_pawns g)\<rparr>)"
proof -
  let ?g1 = "update_cell2piece_map g"
  have h1: "heap ?g1 = heap g" "promoted_pawns ?g1 = promoted_pawns g"
    by (simp_all add: update_cell2piece_map_def)
  have "\<forall>q \<in> set (pos_get ?g1 position). 2 \<le> length (pid (heap g q))"
    using assms(4) pos_get_rebuilt [of g position] by blast
  from enemy_pieces_ok [OF this] obtain r where
    r: "enemy_pieces_at_location (heap g) (pid (heap g p)) (pid (heap g p) ! 1) (pos_get ?g1 position) = Inr r"
    by blast
  have sd: "side_of (pid (heap g p)) = Inr (pid (heap g p) ! 1)" using assms(3) by (rule side_of_wf)
  from assms(5) show ?thesis
    using assms(1,2) sd r h1 by (auto simp: check_pawn_promotion_def Let_def)
qed

lemma check_promotion_result:
  assumes "startswith (pid (heap g p)) ''P''" and "pid (heap g p) \<notin> promoted_pawns g"
    and "2 \<le> length (pid (heap g p))"
    and "\<forall>q \<in> set (pieces g). 2 \<le> length (pid (heap g q))"
    and "(pid (heap g p) ! 1 = CHR ''W'' \<and> fst position = 0) \<or>
         (pid (heap g p) ! 1 = CHR ''B'' \<and> fst position = 7)"
    and "pid (heap g p) \<in> set (map fst (piece_by_id g))"
  shows "\<exists>g'. check_pawn_promotion E p position g = Inr g' \<and>
           heap g' p =
             \<lparr>pid = queen_id (pid (heap g p) ! 1)
                      (find_queen_number (piece_by_id g) (pid (heap g p) ! 1) 1),
              state = (case queen_swap E
                             (queen_id (pid (heap g p) ! 1)
                                (find_queen_number (piece_by_id g) (pid (heap g p) ! 1) 1))
                             (state (heap g p)) of
                         None \<Rightarrow> state (heap g p) | Some s \<Rightarrow> s)\<rparr> \<and>
           (\<forall>q. q \<noteq> p \<longrightarrow> heap g' q = heap g q) \<and>
           piece_by_id g' =
             AList.update
               (queen_id (pid (heap g p) ! 1)
                  (find_queen_number (piece_by_id g) (pid (heap g p) ! 1) 1))
               p (AList.delete (pid (heap g p)) (piece_by_id g)) \<and>
           pieces g' = pieces g \<and>
           promoted_pawns g' = insert (pid (heap g p)) (promoted_pawns g) \<and>
           published g' =
             published g @
             [promotion_event
                (queen_id (pid (heap g p) ! 1)
                   (find_queen_number (piece_by_id g) (pid (heap g p) ! 1) 1))
                (pid (heap g p))
                (current_cell
                   (case queen_swap E
                           (queen_id (pid (heap g p) ! 1)
                              (find_queen_number (piece_by_id g) (pid (heap g p) ! 1) 1))
                           (state (heap g p)) of
                      None \<Rightarrow> state (heap g p) | Some s \<Rightarrow> s))]"
proof -
  let ?i = "pid (heap g p)"
  let ?c = "?i ! 1"
  let ?n = "find_queen_number (piece_by_id g) ?c 1"
  let ?new = "queen_id ?c ?n"
  let ?g2 = "(update_cell2piece_map g)\<lparr>promoted_pawns := insert ?i (promoted_pawns g)\<rparr>"
  have f2: "heap ?g2 = heap g" "piece_by_id ?g2 = piece_by_id g" "pieces ?g2 = pieces g"
    "published ?g2 = published g" "promoted_pawns ?g2 = insert ?i (promoted_pawns g)"
    by (simp_all add: update_cell2piece_map_def)
  have c: "check_pawn_promotion E p position g = promote_pawn_to_queen E p ?g2"
    by (rule check_promotes [OF assms(1-5)])
  have a2: "startswith (pid (heap ?g2 p)) ''P''" "2 \<le> length (pid (heap ?g2 p))"
    "pid (heap ?g2 p) \<in> set (map fst (piece_by_id ?g2))"
    using assms(1,3,6) by (simp_all only: f2)
  note pr = promote_result [OF a2, of E, unfolded f2]
  from find_queen_number_props [of 1 "piece_by_id g" ?c]
  have n1: "1 \<le> ?n" and fresh: "?new \<notin> set (map fst (piece_by_id g))"
    and least: "\<forall>m. 1 \<le> m \<and> m < ?n \<longrightarrow> queen_id ?c m \<in> set (map fst (piece_by_id g))"
    by blast+
  have ne: "?new \<noteq> ?i" by (rule queen_id_not_pawn [OF assms(1)])
  obtain g' where g': "check_pawn_promotion E p position g = Inr g'"
    and g'_def: "g' = game_publish
            (promotion_event ?new ?i
               (current_cell (case queen_swap E ?new (state (heap g p)) of
                                None \<Rightarrow> state (heap g p) | Some s \<Rightarrow> s)))
            (?g2\<lparr>heap := (heap g)
                  (p := \<lparr>pid = ?new,
                         state = (case queen_swap E ?new (state (heap g p)) of
                                    None \<Rightarrow> state (heap g p) | Some s \<Rightarrow> s)\<rparr>),
                piece_by_id := AList.update ?new p (AList.delete ?i (piece_by_id g)),
                promoted_queens := insert ?new (promoted_queens ?g2)\<rparr>)"
    using c pr by simp
  have hp: "heap g' p = \<lparr>pid = ?new,
                         state = (case queen_swap E ?new (state (heap g p)) of
                                    None \<Rightarrow> state (heap g p) | Some s \<Rightarrow> s)\<rparr>"
    and ho: "\<forall>q. q \<noteq> p \<longrightarrow> heap g' q = heap g q"
    and pb: "piece_by_id g' = AList.update ?new p (AList.delete ?i (piece_by_id g))"
    and pc: "pieces g' = pieces g"
    and pp: "promoted_pawns g' = insert ?i (promoted_pawns g)"
    and pu: "published g' = published g @
               [promotion_event ?new ?i
                  (current_cell (case queen_swap E ?new (state (heap g p)) of
                                   None \<Rightarrow> state (heap g p) | Some s \<Rightarrow> s))]"
    by (simp_all add: g'_def update_cell2piece_map_def)
  from g' hp ho pb pc pp pu show ?thesis by blast
qed




lemma last_rank_fields:
  "heap last_rank 2 = mk_piece ''PW1'' (arriving (0, 3) 50)"
  "pieces last_rank = [0, 1, 2]"
  "map fst (piece_by_id last_rank) = [''KW1'', ''KB1'', ''PW1'']"
  "promoted_pawns last_rank = {}"
  "published last_rank = []"
  "heap last_rank 0 = mk_piece ''KW1'' (resting (7, 4))"
  "heap last_rank (Suc 0) = mk_piece ''KB1'' (resting (0, 4))"
  by (simp_all add: last_rank_def board_def index_by_id_def heap_of_def mk_piece_def)


lemma check_changes:
  assumes "check_pawn_promotion E p c g = Inr g'" and "g' \<noteq> g"
  shows "pid (heap g p) \<in> promoted_pawns g' \<and> \<not> startswith (pid (heap g' p)) ''P''"
  using assms
  by (auto simp: check_pawn_promotion_def promote_pawn_to_queen_def Let_def queen_id_no_pawn
      update_cell2piece_map_def split: if_splits sum.splits)

lemma check_promoted_mono:
  "check_pawn_promotion E p c g = Inr g' \<Longrightarrow> promoted_pawns g \<subseteq> promoted_pawns g'"
  by (auto simp: check_pawn_promotion_def promote_pawn_to_queen_def Let_def
      update_cell2piece_map_def split: if_splits sum.splits)

lemma check_guarded:
  "pid (heap g p) \<in> promoted_pawns g \<or> \<not> startswith (pid (heap g p)) ''P'' \<Longrightarrow>
   check_pawn_promotion E p c g = Inr g"
  by (auto simp: check_pawn_promotion_def Let_def)

lemma scan_guarded:
  "\<forall>q \<in> set ps. \<not> startswith (pid (heap g q)) ''P'' \<or> pid (heap g q) \<in> promoted_pawns g \<Longrightarrow>
   post_collision_scan E ps g = Inr g"
  by (induction ps) (auto simp: Let_def)

lemma scan_promoted_mono:
  "post_collision_scan E ps g = Inr g' \<Longrightarrow> promoted_pawns g \<subseteq> promoted_pawns g'"
proof (induction ps arbitrary: g)
  case Nil
  then show ?case by simp
next
  case (Cons p ps)
  show ?case
  proof (cases "post_collision_scan E (p # ps) g = post_collision_scan E ps g")
    case True
    with Cons show ?thesis by simp
  next
    case False
    then obtain c g1 where g1: "check_pawn_promotion E p c g = Inr g1"
      "post_collision_scan E ps g1 = Inr g'"
      using Cons.prems by (auto simp: Let_def split: if_splits sum.splits)
    from Cons.IH [OF g1(2)] check_promoted_mono [OF g1(1)] show ?thesis by blast
  qed
qed

lemma process_input_promoted_mono:
  "process_input E cmd g = Inr g' \<Longrightarrow> promoted_pawns g \<subseteq> promoted_pawns g'"
  by (auto simp: process_input_def Let_def split: if_splits sum.splits option.splits
      dest!: check_promoted_mono)

lemma drain_queue_promoted_mono:
  "drain_queue E cmds g = Inr g' \<Longrightarrow> promoted_pawns g \<subseteq> promoted_pawns g'"
proof (induction cmds arbitrary: g)
  case Nil
  then show ?case by simp
next
  case (Cons cmd cmds)
  then obtain g1 where g1: "process_input E cmd g = Inr g1" "drain_queue E cmds g1 = Inr g'"
    by (auto split: sum.splits)
  from Cons.IH [OF g1(2)] process_input_promoted_mono [OF g1(1)] show ?case by blast
qed

lemma resolve_cells_keeps_promoted:
  "resolve_cells es g = Inr g' \<Longrightarrow> promoted_pawns g' = promoted_pawns g"
proof (induction es arbitrary: g)
  case Nil
  then show ?case by simp
next
  case (Cons e es)
  then obtain g1 where g1: "resolve_cell e g = Inr g1" "resolve_cells es g1 = Inr g'"
    by (auto split: sum.splits)
  from Cons.IH [OF g1(2)] resolve_cell_unchanged [OF g1(1)] show ?case by simp
qed

lemma tick_promoted_mono:
  assumes "tick E inp g = Inr g'"
  shows "promoted_pawns g \<subseteq> promoted_pawns g'"
proof -
  obtain now cmds where inp: "inp = (now, cmds)" by (cases inp)
  let ?g1 = "update_cell2piece_map (update_pieces E now g)"
  have l1: "promoted_pawns ?g1 = promoted_pawns g"
    by (simp add: update_cell2piece_map_def update_pieces_def)
  from assms inp obtain g2 g3 g4 where
    g2: "drain_queue E cmds ?g1 = Inr g2" and
    g3: "resolve_collisions g2 = Inr g3" and g4: "check_post_collision_promotions E g3 = Inr g4"
    and g': "g' = check_and_announce_win g4"
    by (auto simp: tick_def Let_def split: sum.splits)
  have l2: "promoted_pawns ?g1 \<subseteq> promoted_pawns g2" using g2 by (rule drain_queue_promoted_mono)
  have l3: "promoted_pawns g3 = promoted_pawns g2"
    using g3 resolve_cells_keeps_promoted [of _ "update_cell2piece_map g2" g3]
    by (simp add: resolve_collisions_def Let_def update_cell2piece_map_def)
  have l4: "promoted_pawns g3 \<subseteq> promoted_pawns g4"
    using g4 by (simp add: check_post_collision_promotions_def scan_promoted_mono)
  have "promoted_pawns g' = promoted_pawns g4"
    by (simp add: g' check_and_announce_win_def)
  with l1 l2 l3 l4 show ?thesis by simp
qed

text \<open>
  Claim C9.  The promotion check for a piece whose id is in the ledger of promoted pawns
  changes nothing.  A run of the check that changes anything puts the id of the piece into the
  ledger and leaves the piece with an id that does not start with \<^verbatim>\<open>P\<close>, so that every further
  run of the check for this piece, at any position, changes nothing: no queen id is minted and
  no identity is swapped.  The scan after collision resolution changes nothing when every piece
  it visits is no pawn or has its id in the ledger, and no iteration of the loop removes an id
  from the ledger.
\<close>

theorem promotion_at_most_once:
  "(pid (heap g p) \<in> promoted_pawns g \<longrightarrow> check_pawn_promotion E p c g = Inr g) \<and>
   (\<forall>g'. check_pawn_promotion E p c g = Inr g' \<and> g' \<noteq> g \<longrightarrow>
        pid (heap g p) \<in> promoted_pawns g' \<and> \<not> startswith (pid (heap g' p)) ''P'' \<and>
        (\<forall>c'. check_pawn_promotion E p c' g' = Inr g')) \<and>
   ((\<forall>q \<in> set ps. \<not> startswith (pid (heap g q)) ''P'' \<or> pid (heap g q) \<in> promoted_pawns g) \<longrightarrow>
        post_collision_scan E ps g = Inr g) \<and>
   (\<forall>inp g'. tick E inp g = Inr g' \<longrightarrow> promoted_pawns g \<subseteq> promoted_pawns g')"
proof (intro conjI allI impI)
  assume "pid (heap g p) \<in> promoted_pawns g"
  then show "check_pawn_promotion E p c g = Inr g" by (simp add: check_guarded)
next
  fix g' assume a: "check_pawn_promotion E p c g = Inr g' \<and> g' \<noteq> g"
  then have ch: "pid (heap g p) \<in> promoted_pawns g' \<and> \<not> startswith (pid (heap g' p)) ''P''"
    by (intro check_changes [where E = E and c = c]) simp_all
  then show "pid (heap g p) \<in> promoted_pawns g'" "\<not> startswith (pid (heap g' p)) ''P''" by simp_all
  fix c' from ch show "check_pawn_promotion E p c' g' = Inr g'" by (simp add: check_guarded)
next
  assume "\<forall>q \<in> set ps. \<not> startswith (pid (heap g q)) ''P'' \<or> pid (heap g q) \<in> promoted_pawns g"
  then show "post_collision_scan E ps g = Inr g" by (rule scan_guarded)
next
  fix inp g' assume "tick E inp g = Inr g'"
  then show "promoted_pawns g \<subseteq> promoted_pawns g'" by (rule tick_promoted_mono)
qed


theorem promotion_at_most_once_witness:
  "\<exists>g'. check_pawn_promotion teleporting 2 (0, 3) last_rank = Inr g' \<and> g' \<noteq> last_rank \<and>
      ''PW1'' \<in> promoted_pawns g' \<and>
      check_pawn_promotion teleporting 2 (0, 3) g' = Inr g' \<and>
      post_collision_scan teleporting [0, 1, 2] g' = Inr g'"
proof -
  have a1: "startswith (pid (heap last_rank 2)) ''P''"
    and a2: "pid (heap last_rank 2) \<notin> promoted_pawns last_rank"
    and a3: "2 \<le> length (pid (heap last_rank 2))"
    and a4: "\<forall>q \<in> set (pieces last_rank). 2 \<le> length (pid (heap last_rank q))"
    and a6: "pid (heap last_rank 2) \<in> set (map fst (piece_by_id last_rank))"
    and w: "pid (heap last_rank 2) ! 1 = CHR ''W''"
    by (simp_all add: last_rank_fields mk_piece_def startswith_def)
  have a5: "(pid (heap last_rank 2) ! 1 = CHR ''W'' \<and> fst ((0, 3) :: cell) = 0) \<or>
            (pid (heap last_rank 2) ! 1 = CHR ''B'' \<and> fst ((0, 3) :: cell) = 7)"
    using w by simp
  from check_promotion_result [OF a1 a2 a3 a4 a5 a6, of teleporting] obtain g' where
    r: "check_pawn_promotion teleporting 2 (0, 3) last_rank = Inr g'"
    and ho: "\<forall>q. q \<noteq> 2 \<longrightarrow> heap g' q = heap last_rank q"
    and pu: "published g' \<noteq> published last_rank"
    by auto
  from pu have ne: "g' \<noteq> last_rank" by auto
  note t = promotion_at_most_once [of last_rank 2 teleporting "(0, 3)"]
  from t r ne have led: "pid (heap last_rank 2) \<in> promoted_pawns g'"
    and q: "\<not> startswith (pid (heap g' 2)) ''P''"
    and again: "check_pawn_promotion teleporting 2 (0, 3) g' = Inr g'"
    by blast+
  have k: "\<not> startswith (pid (heap g' 0)) ''P''" "\<not> startswith (pid (heap g' (Suc 0))) ''P''"
    using ho by (simp_all add: last_rank_fields mk_piece_def startswith_def)
  have "\<forall>q \<in> set [0, 1, 2]. \<not> startswith (pid (heap g' q)) ''P'' \<or> pid (heap g' q) \<in> promoted_pawns g'"
    using k q by simp
  with promotion_at_most_once [of g' 2 teleporting "(0, 3)" "[0, 1, 2]"]
  have scan: "post_collision_scan teleporting [0, 1, 2] g' = Inr g'" by blast
  from led have "''PW1'' \<in> promoted_pawns g'" by (simp add: last_rank_fields mk_piece_def)
  with r ne again scan show ?thesis by blast
qed

subsection \<open>After the win\<close>


lemma occupancy_ledger [simp]:
  "occupancy (g\<lparr>piece_previous_positions := l\<rparr>) = occupancy g"
  by (simp add: occupancy_def)








end
